theory Spec2Isabelle
  imports Main "HOL-Library.Word" "HOL-Library.AList" "HOL-Library.Multiset" "HOL-Library.Sublist"
begin

section \<open>Host values and the host runtime\<close>

text \<open>
  The widget engine of \<^verbatim>\<open>src/frontends/lean/widget.cpp\<close> works on values of the
  Lean VM. The VM itself (\<^verbatim>\<open>library/vm/vm.h\<close>) is not part of the sources, so a host
  value is a simple value, a constructor application or an opaque closure, and the
  evaluator is a parameter of every function that invokes a closure. A \<^verbatim>\<open>vm_obj\<close> is
  a handle, and the code compares handles (\<^verbatim>\<open>p_new != p_old\<close>): equality of two
  values of this type stands for that comparison.
\<close>

datatype vm_obj =
    VSimple nat
  | VConstr nat "vm_obj list"
  | VClosure nat

definition mk_vm_simple :: "nat \<Rightarrow> vm_obj" where
  "mk_vm_simple n = VSimple n"

definition mk_vm_none :: vm_obj where
  "mk_vm_none = VSimple 0"

definition mk_vm_some :: "vm_obj \<Rightarrow> vm_obj" where
  "mk_vm_some v = VConstr 1 [v]"

definition mk_vm_pair :: "vm_obj \<Rightarrow> vm_obj \<Rightarrow> vm_obj" where
  "mk_vm_pair a b = VConstr 0 [a, b]"

text \<open>
  What the code can throw. \<open>Undefined\<close> stands for the places where the C++ has no
  defined behaviour (an index outside a vector, the value of an empty optional, the
  invocation of a null object): the model stops there instead of inventing a result.
\<close>

datatype exn =
    Invalid_handler
  | Host_failure nat
  | Json_type_error
  | Undefined

fun cfield :: "vm_obj \<Rightarrow> nat \<Rightarrow> exn + vm_obj" where
  "cfield (VConstr c fs) i = (if i < length fs then Inr (fs ! i) else Inl Undefined)"
| "cfield _ i = Inl Undefined"

fun get_optional :: "vm_obj \<Rightarrow> exn + vm_obj option" where
  "get_optional (VSimple n) = Inr None"
| "get_optional v = (case cfield v 0 of Inl e \<Rightarrow> Inl e | Inr x \<Rightarrow> Inr (Some x))"

fun to_bool :: "vm_obj \<Rightarrow> exn + bool" where
  "to_bool (VSimple n) = Inr (n \<noteq> 0)"
| "to_bool (VConstr n fs) = Inr (n \<noteq> 0)"
| "to_bool (VClosure n) = Inl Undefined"

text \<open>
  Component descriptions and html values are the host's inductive types; the C++ reads
  them through \<^verbatim>\<open>cidx\<close> and \<^verbatim>\<open>cfield\<close> with the constructor numbers of
  \<^verbatim>\<open>component_idx\<close>, \<^verbatim>\<open>html_idx\<close> and \<^verbatim>\<open>attr_idx\<close>. They are datatypes here,
  so the \<^verbatim>\<open>lean_unreachable\<close> default branches have no counterpart.
\<close>

datatype component =
    Pure vm_obj
  | Filter_map_action vm_obj component
  | Map_props vm_obj component
  | With_should_update vm_obj component
  | With_state vm_obj vm_obj component
  | With_task vm_obj component
  | With_mouse_capture component

datatype mouse_event_kind = On_click | On_mouse_enter | On_mouse_leave

datatype html =
    Element string "attr list" "html list"
  | Of_string string
  | Of_component vm_obj component
and attr =
    Val string string
  | Mouse_event mouse_event_kind vm_obj
  | Style "(string \<times> string) list"
  | Tooltip html
  | Text_change_event vm_obj

text \<open>
  The host runtime: \<open>invoke f args\<close> applies a closure (\<open>Inl t\<close> when the invocation
  traps), \<open>invoke_view\<close> is the same for a view closure, whose result is a list of html,
  and \<open>hash\<close> is the VM's hash of a component description.
\<close>

record host =
  invoke :: "vm_obj \<Rightarrow> vm_obj list \<Rightarrow> nat + vm_obj"
  invoke_view :: "vm_obj \<Rightarrow> vm_obj \<Rightarrow> nat + html list"
  hash :: "component \<Rightarrow> 32 word"

datatype mouse_capture_state = Outside | Inside_immediate | Inside_child

text \<open>
  The process-wide state: the two atomic counters, the task queue (the tasks submitted
  so far, and what \<^verbatim>\<open>peek\<close> answers for a task), and the indeterminate value that the
  field \<^verbatim>\<open>m_s\<close> of a \<^verbatim>\<open>with_mouse_capture_hook\<close> holds after its constructor, which
  does not initialise it.
\<close>

record world =
  g_fresh_handler_id :: "32 word"
  g_fresh_component_instance_id :: "32 word"
  taskq_submitted :: "vm_obj list"
  peek :: "vm_obj \<Rightarrow> vm_obj option"
  uninitialised_m_s :: mouse_capture_state

section \<open>Hooks\<close>

text \<open>
  The base class \<^verbatim>\<open>component_hook\<close> is declared in \<^verbatim>\<open>widget.h\<close>, which is not among the
  sources. An instance keeps its hooks in the vector \<^verbatim>\<open>m_hooks\<close>, whose elements are
  objects of the base class held by value: the constructor pushes a temporary of a
  derived struct, of which the vector keeps the base part only, the elements are called
  with \<^verbatim>\<open>m_hooks[i].reconcile(...)\<close> and assigned with \<^verbatim>\<open>m_hooks[i] = ...\<close>, and
  \<^verbatim>\<open>for (auto h : m_hooks)\<close> copies each element. A call of a virtual method on an
  element therefore runs the method of the base class. No code of \<^verbatim>\<open>widget.cpp\<close> reads
  or writes a field of the base class, so an object of the base class is one value.

  Modelled from the spec: the methods of the base class are the defaults that a hook
  inherits where it does not override (\<^verbatim>\<open>initialize\<close> stores the props, which no
  method of the base class reads again, so that the stored value is no part of the
  object here; \<^verbatim>\<open>reconcile\<close> answers true, \<^verbatim>\<open>get_props\<close> is the identity, \<^verbatim>\<open>action\<close>
  passes the action on).
\<close>

datatype component_hook = Component_hook

definition component_hook_initialize :: "component_hook \<Rightarrow> vm_obj \<Rightarrow> component_hook" where
  "component_hook_initialize hk props = hk"

definition component_hook_reconcile ::
  "component_hook \<Rightarrow> vm_obj \<Rightarrow> component_hook \<Rightarrow> bool \<times> component_hook" where
  "component_hook_reconcile hk props previous = (True, hk)"

definition component_hook_get_props :: "component_hook \<Rightarrow> vm_obj \<Rightarrow> vm_obj" where
  "component_hook_get_props hk props = props"

definition component_hook_action :: "component_hook \<Rightarrow> vm_obj \<Rightarrow> vm_obj option" where
  "component_hook_action hk action = Some action"

text \<open>
  The structs derived from \<^verbatim>\<open>component_hook\<close>, as one tagged variant. An unset
  \<^verbatim>\<open>ts_vm_obj\<close>, an empty optional and a null task are \<open>None\<close>. \<open>slice\<close> is the copy
  of such an object into an object of the base class, as \<^verbatim>\<open>push_back\<close> makes it.
\<close>

datatype derived_hook =
    Filter_map_action_hook vm_obj "vm_obj option"
  | Map_props_hook vm_obj
  | With_should_update_hook vm_obj "vm_obj option"
  | Stateful_hook vm_obj vm_obj "vm_obj option" "vm_obj option"
  | With_mouse_capture_hook mouse_capture_state
  | With_task_hook vm_obj "vm_obj option"

definition slice :: "derived_hook \<Rightarrow> component_hook" where
  "slice d = Component_hook"

text \<open>
  The methods of the derived structs. Every operation returns what it returned or threw
  together with the hook and the world as it left them; a struct that does not override
  a method has the default of the base class.
\<close>

fun hook_initialize ::
  "host \<Rightarrow> derived_hook \<Rightarrow> vm_obj \<Rightarrow> world \<Rightarrow> (exn + unit) \<times> derived_hook \<times> world" where
  "hook_initialize h (Filter_map_action_hook m_map m_props) props w =
     (Inr (), Filter_map_action_hook m_map (Some props), w)"
| "hook_initialize h (With_should_update_hook m_su m_props) props w =
     (Inr (), With_should_update_hook m_su (Some props), w)"
| "hook_initialize h (Stateful_hook m_init m_update m_props m_state) props w =
     (case m_state of
        None \<Rightarrow> (Inl Undefined, Stateful_hook m_init m_update m_props m_state, w)
      | Some st \<Rightarrow>
          (case invoke h m_init [props, mk_vm_none] of
             Inl t \<Rightarrow> (Inl (Host_failure t), Stateful_hook m_init m_update m_props m_state, w)
           | Inr r \<Rightarrow> (Inr (), Stateful_hook m_init m_update (Some props) (Some r), w)))"
| "hook_initialize h (With_task_hook m_tb m_task) props w =
     (case m_task of
        Some t \<Rightarrow> (Inr (), With_task_hook m_tb m_task, w)
      | None \<Rightarrow>
          (case invoke h m_tb [props] of
             Inl t \<Rightarrow> (Inl (Host_failure t), With_task_hook m_tb m_task, w)
           | Inr vt \<Rightarrow>
               (Inr (), With_task_hook m_tb (Some vt),
                w\<lparr>taskq_submitted := taskq_submitted w @ [vt]\<rparr>)))"
| "hook_initialize h hk props w = (Inr (), hk, w)"

fun hook_reconcile ::
  "host \<Rightarrow> derived_hook \<Rightarrow> vm_obj \<Rightarrow> derived_hook \<Rightarrow> world
     \<Rightarrow> (exn + bool) \<times> derived_hook \<times> world" where
  "hook_reconcile h (Filter_map_action_hook m_map m_props) props prev w =
     (Inr True, Filter_map_action_hook m_map (Some props), w)"
| "hook_reconcile h (With_should_update_hook m_su m_props) new_props previous w =
     (case previous of
        With_should_update_hook prev_su prev_m_props \<Rightarrow>
          (case prev_m_props of
             None \<Rightarrow> (Inr True, With_should_update_hook m_su m_props, w)
           | Some prev_props \<Rightarrow>
               (case invoke h m_su [prev_props, new_props] of
                  Inl t \<Rightarrow> (Inl (Host_failure t), With_should_update_hook m_su (Some new_props), w)
                | Inr b \<Rightarrow>
                    (case to_bool b of
                       Inl e \<Rightarrow> (Inl e, With_should_update_hook m_su (Some new_props), w)
                     | Inr r \<Rightarrow> (Inr r, With_should_update_hook m_su (Some new_props), w))))
      | _ \<Rightarrow> (Inr True, With_should_update_hook m_su m_props, w))"
| "hook_reconcile h (Stateful_hook m_init m_update m_props m_state) props previous w =
     (case previous of
        Stateful_hook prev_init prev_update prev_props prev_state \<Rightarrow>
          (case hook_initialize h (Stateful_hook m_init m_update m_props prev_state) props w of
             (Inl e, hk, w1) \<Rightarrow> (Inl e, hk, w1)
           | (Inr u, hk, w1) \<Rightarrow>
               (case hook_initialize h hk props w1 of
                  (Inl e, hk2, w2) \<Rightarrow> (Inl e, hk2, w2)
                | (Inr u2, hk2, w2) \<Rightarrow> (Inr True, hk2, w2)))
      | _ \<Rightarrow>
          (case hook_initialize h (Stateful_hook m_init m_update m_props m_state) props w of
             (Inl e, hk, w1) \<Rightarrow> (Inl e, hk, w1)
           | (Inr u, hk, w1) \<Rightarrow> (Inr True, hk, w1)))"
| "hook_reconcile h (With_task_hook m_tb m_task) props old w =
     (case hook_initialize h (With_task_hook m_tb m_task) props w of
        (Inl e, hk, w1) \<Rightarrow> (Inl e, hk, w1)
      | (Inr u, hk, w1) \<Rightarrow> (Inr True, hk, w1))"
| "hook_reconcile h hk props prev w = (Inr True, hk, w)"

fun hook_get_props ::
  "host \<Rightarrow> derived_hook \<Rightarrow> vm_obj \<Rightarrow> world \<Rightarrow> (exn + vm_obj) \<times> derived_hook \<times> world" where
  "hook_get_props h (Map_props_hook m_map) props w =
     (case invoke h m_map [props] of
        Inl t \<Rightarrow> (Inl (Host_failure t), Map_props_hook m_map, w)
      | Inr r \<Rightarrow> (Inr r, Map_props_hook m_map, w))"
| "hook_get_props h (Stateful_hook m_init m_update m_props m_state) props w =
     (case m_state of
        None \<Rightarrow>
          (case hook_initialize h (Stateful_hook m_init m_update m_props m_state) props w of
             (Inl e, hk, w1) \<Rightarrow> (Inl e, hk, w1)
           | (Inr u, hk, w1) \<Rightarrow>
               (case hk of
                  Stateful_hook i1 u1 p1 (Some st) \<Rightarrow> (Inr (mk_vm_pair st props), hk, w1)
                | _ \<Rightarrow> (Inl Undefined, hk, w1)))
      | Some st \<Rightarrow>
          (Inr (mk_vm_pair st props), Stateful_hook m_init m_update m_props m_state, w))"
| "hook_get_props h (With_mouse_capture_hook m_s) props w =
     (Inr (mk_vm_pair (mk_vm_simple 0) props), With_mouse_capture_hook m_s, w)"
| "hook_get_props h (With_task_hook m_tb m_task) props w =
     (case m_task of
        None \<Rightarrow> (Inl Undefined, With_task_hook m_tb m_task, w)
      | Some t \<Rightarrow>
          (Inr (mk_vm_pair (case peek w t of Some r \<Rightarrow> mk_vm_some r | None \<Rightarrow> mk_vm_none) props),
           With_task_hook m_tb m_task, w))"
| "hook_get_props h hk props w = (Inr props, hk, w)"

fun hook_action ::
  "host \<Rightarrow> derived_hook \<Rightarrow> vm_obj \<Rightarrow> (exn + vm_obj option) \<times> derived_hook" where
  "hook_action h (Filter_map_action_hook m_map m_props) action =
     (case m_props of
        None \<Rightarrow> (Inl Undefined, Filter_map_action_hook m_map m_props)
      | Some p \<Rightarrow>
          (case invoke h m_map [p, action] of
             Inl t \<Rightarrow> (Inl (Host_failure t), Filter_map_action_hook m_map m_props)
           | Inr o' \<Rightarrow> (get_optional o', Filter_map_action_hook m_map m_props)))"
| "hook_action h (Stateful_hook m_init m_update m_props m_state) action =
     (case (m_props, m_state) of
        (Some p, Some st) \<Rightarrow>
          (case invoke h m_update [p, st, action] of
             Inl t \<Rightarrow> (Inl (Host_failure t), Stateful_hook m_init m_update m_props m_state)
           | Inr r \<Rightarrow>
               (case cfield r 0 of
                  Inl e \<Rightarrow> (Inl e, Stateful_hook m_init m_update m_props m_state)
                | Inr s' \<Rightarrow>
                    (case cfield r 1 of
                       Inl e \<Rightarrow> (Inl e, Stateful_hook m_init m_update m_props (Some s'))
                     | Inr a' \<Rightarrow> (get_optional a', Stateful_hook m_init m_update m_props (Some s')))))
      | _ \<Rightarrow> (Inl Undefined, Stateful_hook m_init m_update m_props m_state))"
| "hook_action h hk action = (Inr (Some action), hk)"

text \<open>\<^verbatim>\<open>with_mouse_capture_hook::set_state\<close>: the new hook and whether the state changed.\<close>

fun set_state :: "derived_hook \<Rightarrow> mouse_capture_state \<Rightarrow> bool \<times> derived_hook" where
  "set_state (With_mouse_capture_hook m_s) s =
     (if m_s = s then (False, With_mouse_capture_hook m_s) else (True, With_mouse_capture_hook s))"
| "set_state hk s = (False, hk)"

section \<open>Virtual DOM nodes and component instances\<close>

text \<open>
  The attribute object of an element is a JSON object; the code stores strings in it and,
  under \<^verbatim>\<open>style\<close>, an object of strings. An object is an association list in which
  a key is updated in place.
\<close>

datatype json =
    JString string
  | JObject "(string \<times> json) list"

text \<open>
  A \<^verbatim>\<open>vdom\<close> is a handle on a node. A component node is a pointer to a
  \<^verbatim>\<open>component_instance\<close> that the vector \<^verbatim>\<open>components\<close> of the rendering call holds
  as well, and that vector becomes the owner's \<^verbatim>\<open>m_children\<close>: the pointer is
  modelled as the position of the instance in that vector, so that the node and the
  vector name one object.
\<close>

datatype vdom =
    Vdom_element string "(string \<times> json) list" "(string \<times> 32 word) list" "vdom list" "vdom option"
  | Vdom_string string
  | Vdom_component nat

datatype component_instance = Component_instance
  (m_id: "32 word")
  (m_route: "32 word list")
  (m_component_hash: "32 word")
  (m_props: vm_obj)
  (m_inner_props: "vm_obj option")
  (m_hooks: "component_hook list")
  (m_view: vm_obj)
  (m_render: "vdom list")
  (m_children: "component_instance list")
  (m_handlers: "32 word \<Rightarrow> vm_obj option")
  (m_has_rendered: bool)
  (m_reconcile_count: "32 word")

text \<open>Assignments to single fields of an instance.\<close>

definition set_hooks :: "component_hook list \<Rightarrow> component_instance \<Rightarrow> component_instance" where
  "set_hooks hs c =
     Component_instance (m_id c) (m_route c) (m_component_hash c) (m_props c) (m_inner_props c)
       hs (m_view c) (m_render c) (m_children c) (m_handlers c) (m_has_rendered c)
       (m_reconcile_count c)"

definition set_inner_props :: "vm_obj option \<Rightarrow> component_instance \<Rightarrow> component_instance" where
  "set_inner_props p c =
     Component_instance (m_id c) (m_route c) (m_component_hash c) (m_props c) p
       (m_hooks c) (m_view c) (m_render c) (m_children c) (m_handlers c) (m_has_rendered c)
       (m_reconcile_count c)"

definition set_children :: "component_instance list \<Rightarrow> component_instance \<Rightarrow> component_instance" where
  "set_children cs c =
     Component_instance (m_id c) (m_route c) (m_component_hash c) (m_props c) (m_inner_props c)
       (m_hooks c) (m_view c) (m_render c) cs (m_handlers c) (m_has_rendered c)
       (m_reconcile_count c)"

text \<open>
  \<^verbatim>\<open>vdom_element::key\<close>. The conversion of the entry to a \<^verbatim>\<open>std::string\<close> throws when
  the entry is not a string. Modelled from the spec: a text node and a component node
  carry no key (their \<^verbatim>\<open>key\<close> is declared in \<^verbatim>\<open>widget.h\<close>).
\<close>

fun key :: "vdom \<Rightarrow> exn + string option" where
  "key (Vdom_element tag attrs events children tooltip) =
     (case map_of attrs ''key'' of
        None \<Rightarrow> Inr None
      | Some (JString k) \<Rightarrow> Inr (Some k)
      | Some (JObject kvs) \<Rightarrow> Inl Json_type_error)"
| "key v = Inr None"

text \<open>
  The constructor of \<^verbatim>\<open>component_instance\<close>: a fresh id, and one hook per layer of the
  description, outermost first, down to the view of the \<^verbatim>\<open>pure\<close> leaf. Each hook is
  built as an object of its derived struct and pushed into \<^verbatim>\<open>m_hooks\<close>, which keeps
  the slice; the temporary is destroyed at once, and the one destructor of the file,
  that of \<^verbatim>\<open>with_task_hook\<close>, does nothing for a hook without a task. Modelled from the
  spec: the fields the constructor does not mention start
  empty, and a new instance has not rendered.
\<close>

fun component_hooks :: "mouse_capture_state \<Rightarrow> component \<Rightarrow> component_hook list \<Rightarrow> component_hook list \<times> vm_obj" where
  "component_hooks s (Pure view) hooks = (hooks, view)"
| "component_hooks s (Filter_map_action f c) hooks =
     component_hooks s c (hooks @ [slice (Filter_map_action_hook f None)])"
| "component_hooks s (Map_props f c) hooks =
     component_hooks s c (hooks @ [slice (Map_props_hook f)])"
| "component_hooks s (With_should_update f c) hooks =
     component_hooks s c (hooks @ [slice (With_should_update_hook f None)])"
| "component_hooks s (With_state init update c) hooks =
     component_hooks s c (hooks @ [slice (Stateful_hook init update None None)])"
| "component_hooks s (With_task tb c) hooks =
     component_hooks s c (hooks @ [slice (With_task_hook tb None)])"
| "component_hooks s (With_mouse_capture c) hooks =
     component_hooks s c (hooks @ [slice (With_mouse_capture_hook s)])"

definition new_component_instance ::
  "host \<Rightarrow> component \<Rightarrow> vm_obj \<Rightarrow> 32 word list \<Rightarrow> world \<Rightarrow> component_instance \<times> world" where
  "new_component_instance h component props route w =
     (let (hooks, view) = component_hooks (uninitialised_m_s w) component []
      in (Component_instance (g_fresh_component_instance_id w) route (hash h component) props None
            hooks view [] [] (\<lambda>k. None) False 0,
          w\<lparr>g_fresh_component_instance_id := g_fresh_component_instance_id w + 1\<rparr>))"

section \<open>The renderer\<close>

text \<open>
  What a rendering call builds up: the vector of the component instances it allocated,
  the handler table, and the world (the counters).
\<close>

record render_state =
  components :: "component_instance list"
  handlers :: "32 word \<Rightarrow> vm_obj option"
  rworld :: world

definition render_event ::
  "string \<Rightarrow> vm_obj \<Rightarrow> (string \<times> 32 word) list \<Rightarrow> render_state
     \<Rightarrow> (string \<times> 32 word) list \<times> render_state" where
  "render_event name handler events st =
     (let handler_id = g_fresh_handler_id (rworld st)
      in (AList.update name handler_id events,
          st\<lparr>handlers := (handlers st)(handler_id \<mapsto> handler),
             rworld := (rworld st)\<lparr>g_fresh_handler_id := handler_id + 1\<rparr>\<rparr>))"

text \<open>The \<^verbatim>\<open>val\<close> case of \<^verbatim>\<open>render_element\<close>: \<^verbatim>\<open>className\<close> entries are merged.\<close>

definition render_val :: "string \<Rightarrow> string \<Rightarrow> (string \<times> json) list \<Rightarrow> exn + (string \<times> json) list" where
  "render_val k v attributes =
     (if k = ''className'' \<and> map_of attributes k \<noteq> None then
        (case map_of attributes k of
           Some (JString cn) \<Rightarrow> Inr (AList.update k (JString (cn @ '' '' @ v)) attributes)
         | _ \<Rightarrow> Inl Json_type_error)
      else Inr (AList.update k (JString v) attributes))"

text \<open>The \<^verbatim>\<open>style\<close> case: each pair is written into the object under \<^verbatim>\<open>style\<close>.\<close>

fun render_style :: "(string \<times> string) list \<Rightarrow> (string \<times> json) list \<Rightarrow> exn + (string \<times> json) list" where
  "render_style [] attributes = Inr attributes"
| "render_style ((k, v) # l) attributes =
     (case map_of attributes ''style'' of
        None \<Rightarrow> render_style l (AList.update ''style'' (JObject [(k, JString v)]) attributes)
      | Some (JObject kvs) \<Rightarrow>
          render_style l (AList.update ''style'' (JObject (AList.update k (JString v) kvs)) attributes)
      | Some (JString s) \<Rightarrow> Inl Json_type_error)"

text \<open>
  \<^verbatim>\<open>render_html\<close>, \<^verbatim>\<open>render_element\<close> (whose loop over the attributes is
  \<open>render_attrs\<close>, with the locals \<^verbatim>\<open>attributes\<close>, \<^verbatim>\<open>events\<close> and \<^verbatim>\<open>tooltip\<close>) and
  \<^verbatim>\<open>render_html_list\<close>.
\<close>

fun render_html :: "host \<Rightarrow> 32 word list \<Rightarrow> html \<Rightarrow> render_state \<Rightarrow> (exn + vdom) \<times> render_state"
and render_attrs ::
  "host \<Rightarrow> 32 word list \<Rightarrow> attr list
     \<Rightarrow> (string \<times> json) list \<times> (string \<times> 32 word) list \<times> vdom option \<Rightarrow> render_state
     \<Rightarrow> (exn + (string \<times> json) list \<times> (string \<times> 32 word) list \<times> vdom option) \<times> render_state"
and render_html_list ::
  "host \<Rightarrow> 32 word list \<Rightarrow> html list \<Rightarrow> render_state \<Rightarrow> (exn + vdom list) \<times> render_state" where
  "render_html h route (Element tag v_attrs v_children) st =
     (case render_attrs h route v_attrs ([], [], None) st of
        (Inl e, st1) \<Rightarrow> (Inl e, st1)
      | (Inr (attributes, events, tooltip), st1) \<Rightarrow>
          (case render_html_list h route v_children st1 of
             (Inl e, st2) \<Rightarrow> (Inl e, st2)
           | (Inr children, st2) \<Rightarrow>
               (Inr (Vdom_element tag attributes events children tooltip), st2)))"
| "render_html h route (Of_string s) st = (Inr (Vdom_string s), st)"
| "render_html h route (Of_component props cmp) st =
     (let (c, w) = new_component_instance h cmp props route (rworld st)
      in (Inr (Vdom_component (length (components st))),
          st\<lparr>components := components st @ [c], rworld := w\<rparr>))"
| "render_attrs h route [] acc st = (Inr acc, st)"
| "render_attrs h route (Val k v # v_attrs) (attributes, events, tooltip) st =
     (case render_val k v attributes of
        Inl e \<Rightarrow> (Inl e, st)
      | Inr attributes' \<Rightarrow> render_attrs h route v_attrs (attributes', events, tooltip) st)"
| "render_attrs h route (Mouse_event kind handler # v_attrs) (attributes, events, tooltip) st =
     (let (events', st1) =
        render_event
          (case kind of On_click \<Rightarrow> ''onClick'' | On_mouse_enter \<Rightarrow> ''onMouseEnter''
           | On_mouse_leave \<Rightarrow> ''onMouseLeave'')
          handler events st
      in render_attrs h route v_attrs (attributes, events', tooltip) st1)"
| "render_attrs h route (Style l # v_attrs) (attributes, events, tooltip) st =
     (case render_style l attributes of
        Inl e \<Rightarrow> (Inl e, st)
      | Inr attributes' \<Rightarrow> render_attrs h route v_attrs (attributes', events, tooltip) st)"
| "render_attrs h route (Tooltip content # v_attrs) (attributes, events, tooltip) st =
     (case render_html h route content st of
        (Inl e, st1) \<Rightarrow> (Inl e, st1)
      | (Inr tooltip_child, st1) \<Rightarrow>
          render_attrs h route v_attrs (attributes, events, Some tooltip_child) st1)"
| "render_attrs h route (Text_change_event handler # v_attrs) (attributes, events, tooltip) st =
     (let (events', st1) = render_event ''onChange'' handler events st
      in render_attrs h route v_attrs (attributes, events', tooltip) st1)"
| "render_html_list h route [] st = (Inr [], st)"
| "render_html_list h route (x # l) st =
     (case render_html h route x st of
        (Inl e, st1) \<Rightarrow> (Inl e, st1)
      | (Inr v, st1) \<Rightarrow>
          (case render_html_list h route l st1 of
             (Inl e, st2) \<Rightarrow> (Inl e, st2)
           | (Inr elements, st2) \<Rightarrow> (Inr (v # elements), st2)))"

section \<open>Component instances: initialize, reconcile, render\<close>

text \<open>
  \<^verbatim>\<open>component_instance::initialize\<close>: the props flow through the hooks, outermost first.
  The loop \<^verbatim>\<open>for (auto h : m_hooks)\<close> works on a copy \<open>h\<close> of each element, so
  \<^verbatim>\<open>m_hooks\<close> stays as it is.
\<close>

fun initialize_hooks :: "vm_obj \<Rightarrow> component_hook list \<Rightarrow> vm_obj" where
  "initialize_hooks p [] = p"
| "initialize_hooks p (hk # hks) =
     (let h = component_hook_initialize hk p
      in initialize_hooks (component_hook_get_props h p) hks)"

definition initialize :: "component_instance \<Rightarrow> component_instance" where
  "initialize c = set_inner_props (Some (initialize_hooks (m_props c) (m_hooks c))) c"

text \<open>
  The loop over the hooks in \<^verbatim>\<open>component_instance::reconcile\<close>, from the hook at the
  current index on: \<open>su\<close> is \<^verbatim>\<open>should_update\<close>, \<open>p\<close> is \<^verbatim>\<open>p_new\<close>. Every round
  reads the old hook at the same index, which does not exist when the old instance has
  fewer hooks. The result is what the loop returned or threw, and the hooks as it left
  them.
\<close>

fun reconcile_hooks ::
  "bool \<Rightarrow> vm_obj \<Rightarrow> component_hook list \<Rightarrow> component_hook list
     \<Rightarrow> (exn + bool \<times> vm_obj) \<times> component_hook list" where
  "reconcile_hooks su p [] olds = (Inr (su, p), [])"
| "reconcile_hooks su p (hk # hks) [] = (Inl Undefined, hk # hks)"
| "reconcile_hooks su p (hk # hks) (ohk # ohks) =
     (if su then
        (case component_hook_reconcile hk p ohk of
           (b, hk1) \<Rightarrow>
             (if \<not> b then
                (case reconcile_hooks False p hks ohks of
                   (r, hks') \<Rightarrow> (r, ohk # hks'))
              else
                (case reconcile_hooks True (component_hook_get_props hk1 p) hks ohks of
                   (r, hks') \<Rightarrow> (r, hk1 # hks'))))
      else
        (case reconcile_hooks False p hks ohks of
           (r, hks') \<Rightarrow> (r, ohk # hks')))"

text \<open>
  \<^verbatim>\<open>reconcile_children\<close>. The inner loop looks for the first remaining old node whose
  key equals the key of the new node; \<^verbatim>\<open>erase\<close> removes the node at that position.
  The call \<^verbatim>\<open>new_elements[i].reconcile(o)\<close> is the parameter \<open>rc\<close>, which works on the
  state \<open>s\<close> (the instances the new nodes point to, and the world) and gives no result
  when the reconciliation of a node does not return.
\<close>

fun find_old :: "string option \<Rightarrow> vdom list \<Rightarrow> exn + nat option" where
  "find_old k [] = Inr None"
| "find_old k (ov # old_elements) =
     (case key ov of
        Inl e \<Rightarrow> Inl e
      | Inr ko \<Rightarrow>
          (if ko = k then Inr (Some 0)
           else (case find_old k old_elements of
                   Inl e \<Rightarrow> Inl e
                 | Inr None \<Rightarrow> Inr None
                 | Inr (Some j) \<Rightarrow> Inr (Some (Suc j)))))"

definition erase :: "'a list \<Rightarrow> nat \<Rightarrow> 'a list" where
  "erase xs j = take j xs @ drop (Suc j) xs"

fun reconcile_children_with ::
  "(vdom \<Rightarrow> vdom \<Rightarrow> 's \<Rightarrow> ((exn + unit) \<times> 's) option) \<Rightarrow> vdom list \<Rightarrow> vdom list \<Rightarrow> 's
     \<Rightarrow> ((exn + unit) \<times> 's) option" where
  "reconcile_children_with rc [] old_elements s = Some (Inr (), s)"
| "reconcile_children_with rc (n # new_elements) old_elements s =
     (case key n of
        Inl e \<Rightarrow> Some (Inl e, s)
      | Inr (Some k) \<Rightarrow>
          (case find_old (Some k) old_elements of
             Inl e \<Rightarrow> Some (Inl e, s)
           | Inr None \<Rightarrow> reconcile_children_with rc new_elements old_elements s
           | Inr (Some j) \<Rightarrow>
               (case rc n (old_elements ! j) s of
                  None \<Rightarrow> None
                | Some (Inl e, s1) \<Rightarrow> Some (Inl e, s1)
                | Some (Inr u, s1) \<Rightarrow>
                    reconcile_children_with rc new_elements (erase old_elements j) s1))
      | Inr None \<Rightarrow>
          (case old_elements of
             [] \<Rightarrow> reconcile_children_with rc new_elements [] s
           | ov # rest \<Rightarrow>
               (case rc n ov s of
                  None \<Rightarrow> None
                | Some (Inl e, s1) \<Rightarrow> Some (Inl e, s1)
                | Some (Inr u, s1) \<Rightarrow> reconcile_children_with rc new_elements rest s1)))"

lemma reconcile_children_with_cong [fundef_cong]:
  assumes "news = news'" and "olds = olds'" and "s = s'"
    and "\<And>n ov t. n \<in> set news' \<Longrightarrow> rc n ov t = rc' n ov t"
  shows "reconcile_children_with rc news olds s = reconcile_children_with rc' news' olds' s'"
  unfolding assms(1-3) using assms(4)
proof (induction news' arbitrary: olds' s')
  case Nil
  show ?case by simp
next
  case (Cons n ns)
  have step: "\<And>ov t. rc n ov t = rc' n ov t"
    using Cons.prems by simp
  have rest: "\<And>os t. reconcile_children_with rc ns os t = reconcile_children_with rc' ns os t"
    using Cons.IH Cons.prems by simp
  show ?case
    by (simp add: step rest split: sum.splits option.splits list.splits prod.splits)
qed

text \<open>
  The reconciliation of a node against an old node, \<^verbatim>\<open>component_instance::reconcile\<close>
  and \<^verbatim>\<open>component_instance::render\<close>, which call each other. The new nodes point into
  the vector \<open>cn\<close>, the old nodes into \<open>co\<close>, the \<^verbatim>\<open>m_children\<close> of the instance that
  rendered them. The first argument bounds how deep \<^verbatim>\<open>render\<close> may nest, so that the
  functions are total: \<open>None\<close> says that the bound was reached. Modelled from the spec:
  the reconciliation of a text node does nothing.
\<close>

fun vdom_reconcile ::
  "nat \<Rightarrow> host \<Rightarrow> component_instance list \<Rightarrow> vdom \<Rightarrow> vdom \<Rightarrow> component_instance list \<times> world
     \<Rightarrow> ((exn + unit) \<times> component_instance list \<times> world) option"
and component_reconcile ::
  "nat \<Rightarrow> host \<Rightarrow> component_instance \<Rightarrow> component_instance option \<Rightarrow> world
     \<Rightarrow> ((exn + unit) \<times> component_instance \<times> world) option"
and render ::
  "nat \<Rightarrow> host \<Rightarrow> component_instance \<Rightarrow> world
     \<Rightarrow> ((exn + unit) \<times> component_instance \<times> world) option" where
  "vdom_reconcile fuel h co (Vdom_element tag attrs events children tooltip) old_vdom s =
     (case old_vdom of
        Vdom_element otag oattrs oevents ochildren otooltip \<Rightarrow>
          (if otag = tag then
             (case reconcile_children_with (vdom_reconcile fuel h co) children ochildren s of
                None \<Rightarrow> None
              | Some (Inl e, s1) \<Rightarrow> Some (Inl e, s1)
              | Some (Inr u, s1) \<Rightarrow>
                  (case tooltip of
                     None \<Rightarrow> Some (Inr (), s1)
                   | Some t \<Rightarrow>
                       (case otooltip of
                          None \<Rightarrow> Some (Inr (), s1)
                        | Some ot \<Rightarrow> vdom_reconcile fuel h co t ot s1)))
           else Some (Inr (), s))
      | _ \<Rightarrow> Some (Inr (), s))"
| "vdom_reconcile fuel h co (Vdom_string str) old_vdom s = Some (Inr (), s)"
| "vdom_reconcile fuel h co (Vdom_component i) old_vdom s =
     (case s of (cn, w) \<Rightarrow>
        (if i < length cn then
           (case old_vdom of
              Vdom_component j \<Rightarrow>
                (if j < length co then
                   (case component_reconcile fuel h (cn ! i) (Some (co ! j)) w of
                      None \<Rightarrow> None
                    | Some (r, c, w1) \<Rightarrow> Some (r, cn[i := c], w1))
                 else Some (Inl Undefined, s))
            | _ \<Rightarrow>
                (case component_reconcile fuel h (cn ! i) None w of
                   None \<Rightarrow> None
                 | Some (r, c, w1) \<Rightarrow> Some (r, cn[i := c], w1)))
         else Some (Inl Undefined, s)))"
| "component_reconcile fuel h c ci_old w =
     (case (case ci_old of
              None \<Rightarrow> None
            | Some old \<Rightarrow> if m_component_hash old = m_component_hash c then Some old else None) of
        Some old \<Rightarrow>
          (case reconcile_hooks (m_props c \<noteq> m_props old) (m_props c) (m_hooks c) (m_hooks old) of
             (Inl e, hooks) \<Rightarrow> Some (Inl e, set_hooks hooks c, w)
           | (Inr (should_update, p_new), hooks) \<Rightarrow>
               (if \<not> should_update then
                  Some (Inr (),
                    Component_instance (m_id old) (m_route c) (m_component_hash c) (m_props c)
                      (m_inner_props old) hooks (m_view c) (m_render old) (m_children old)
                      (m_handlers c) True (m_reconcile_count old + 1),
                    w)
                else render fuel h (set_inner_props (Some p_new) (set_hooks hooks c)) w))
      | None \<Rightarrow> render fuel h (initialize c) w)"
| "render 0 h c w = None"
| "render (Suc fuel) h c w =
     (case m_inner_props c of
        None \<Rightarrow> Some (Inl Undefined, c, w)
      | Some inner_props \<Rightarrow>
          (case invoke_view h (m_view c) inner_props of
             Inl t \<Rightarrow> Some (Inl (Host_failure t), c, w)
           | Inr view \<Rightarrow>
               (case render_html_list h (m_id c # m_route c) view
                       \<lparr>components = [], handlers = (\<lambda>k. None), rworld = w\<rparr> of
                  (Inl e, st) \<Rightarrow> Some (Inl e, c, rworld st)
                | (Inr elements, st) \<Rightarrow>
                    (case reconcile_children_with (vdom_reconcile fuel h (m_children c))
                            elements (m_render c) (components st, rworld st) of
                       None \<Rightarrow> None
                     | Some (Inl e, s1) \<Rightarrow> Some (Inl e, c, snd s1)
                     | Some (Inr u, s1) \<Rightarrow>
                         Some (Inr (),
                           Component_instance (m_id c) (m_route c) (m_component_hash c) (m_props c)
                             (m_inner_props c) (m_hooks c) (m_view c) elements (fst s1)
                             (handlers st) True (m_reconcile_count c),
                           snd s1)))))"

section \<open>Events and lifecycle\<close>

text \<open>
  \<^verbatim>\<open>component_instance::handle_action\<close>. The index \<^verbatim>\<open>i\<close> is an \<^verbatim>\<open>unsigned\<close>, so
  \<^verbatim>\<open>i >= 0\<close> always holds and \<^verbatim>\<open>i--\<close> wraps around at zero: the loop ends only at
  its \<^verbatim>\<open>break\<close>, or where \<^verbatim>\<open>m_hooks[i]\<close> is outside the vector. A loop that does not
  end has the value \<open>None\<close>. The host is passed along as to the other entry points; the
  \<^verbatim>\<open>action\<close> of an element of \<^verbatim>\<open>m_hooks\<close> does not invoke it.
\<close>

partial_function (option) handle_action_loop ::
  "host \<Rightarrow> 32 word \<Rightarrow> vm_obj option \<Rightarrow> component_hook list
     \<Rightarrow> ((exn + vm_obj option) \<times> component_hook list) option" where
  "handle_action_loop h i result hooks =
     (case result of
        None \<Rightarrow> Some (Inr None, hooks)
      | Some a \<Rightarrow>
          (if unat i < length hooks then
             handle_action_loop h (i - 1) (component_hook_action (hooks ! unat i) a) hooks
           else Some (Inl Undefined, hooks)))"

definition handle_action ::
  "host \<Rightarrow> component_instance \<Rightarrow> vm_obj \<Rightarrow> ((exn + vm_obj option) \<times> component_instance) option" where
  "handle_action h c action =
     (case handle_action_loop h (of_nat (length (m_hooks c)) - 1) (Some action) (m_hooks c) of
        None \<Rightarrow> None
      | Some (r, hooks) \<Rightarrow> Some (r, set_hooks hooks c))"

text \<open>The position of the first child whose id is \<open>r\<close>.\<close>

fun find_child :: "component_instance list \<Rightarrow> 32 word \<Rightarrow> nat option" where
  "find_child [] r = None"
| "find_child (c # cs) r =
     (if m_id c = r then Some 0 else map_option Suc (find_child cs r))"

text \<open>
  \<^verbatim>\<open>component_instance::handle_event\<close>. \<^verbatim>\<open>m_handlers[handler_id]\<close> is the indexing of
  a \<^verbatim>\<open>std::map\<close>: for an id that is not a key it yields an empty object, which is then
  invoked.
\<close>

fun handle_event ::
  "host \<Rightarrow> component_instance \<Rightarrow> 32 word list \<Rightarrow> 32 word \<Rightarrow> vm_obj
     \<Rightarrow> ((exn + vm_obj option) \<times> component_instance) option" where
  "handle_event h c [] handler_id event_args =
     (case m_handlers c handler_id of
        None \<Rightarrow> Some (Inl Undefined, c)
      | Some handler \<Rightarrow>
          (case invoke h handler [event_args] of
             Inl t \<Rightarrow> Some (Inl (Host_failure t), c)
           | Inr action \<Rightarrow> handle_action h c action))"
| "handle_event h c (r # route) handler_id event_args =
     (case find_child (m_children c) r of
        None \<Rightarrow> Some (Inl Invalid_handler, c)
      | Some k \<Rightarrow>
          (case handle_event h (m_children c ! k) route handler_id event_args of
             None \<Rightarrow> None
           | Some (Inl e, c') \<Rightarrow> Some (Inl e, set_children ((m_children c)[k := c']) c)
           | Some (Inr None, c') \<Rightarrow> Some (Inr None, set_children ((m_children c)[k := c']) c)
           | Some (Inr (Some a), c') \<Rightarrow>
               handle_action h (set_children ((m_children c)[k := c']) c) a))"

text \<open>\<^verbatim>\<open>initialize(); render();\<close>, as three of the entry points end.\<close>

definition initialize_render ::
  "nat \<Rightarrow> host \<Rightarrow> component_instance \<Rightarrow> world \<Rightarrow> ((exn + unit) \<times> component_instance \<times> world) option" where
  "initialize_render fuel h c w = render fuel h (initialize c) w"

fun handle_task_completed ::
  "nat \<Rightarrow> host \<Rightarrow> component_instance \<Rightarrow> 32 word list \<Rightarrow> world
     \<Rightarrow> ((exn + unit) \<times> component_instance \<times> world) option" where
  "handle_task_completed fuel h c [] w = initialize_render fuel h c w"
| "handle_task_completed fuel h c (r # route) w =
     (case find_child (m_children c) r of
        None \<Rightarrow> Some (Inr (), c, w)
      | Some k \<Rightarrow>
          (case handle_task_completed fuel h (m_children c ! k) route w of
             None \<Rightarrow> None
           | Some (res, c', w1) \<Rightarrow> Some (res, set_children ((m_children c)[k := c']) c, w1)))"

text \<open>
  \<^verbatim>\<open>update_capture_state\<close>. Its loop \<^verbatim>\<open>for (auto h : m_hooks)\<close> copies each element
  into the local \<^verbatim>\<open>h\<close>, an object of the base class, and casts the address of that
  local: \<^verbatim>\<open>dynamic_cast<with_mouse_capture_hook *>(&h)\<close> is null for an object whose
  class is the base class itself. \<open>set_states\<close> is the loop, with the value of
  \<^verbatim>\<open>should_update\<close> after it.
\<close>

definition dynamic_cast_with_mouse_capture_hook :: "component_hook \<Rightarrow> derived_hook option" where
  "dynamic_cast_with_mouse_capture_hook h = None"

fun set_states :: "component_hook list \<Rightarrow> mouse_capture_state \<Rightarrow> bool" where
  "set_states [] ms = False"
| "set_states (hk # hks) ms =
     (case dynamic_cast_with_mouse_capture_hook hk of
        None \<Rightarrow> set_states hks ms
      | Some mh \<Rightarrow> (case set_state mh ms of (b, mh') \<Rightarrow> b \<or> set_states hks ms))"

definition update_capture_state ::
  "nat \<Rightarrow> host \<Rightarrow> component_instance \<Rightarrow> mouse_capture_state \<Rightarrow> world
     \<Rightarrow> ((exn + unit) \<times> component_instance \<times> world) option" where
  "update_capture_state fuel h c ms w =
     (if set_states (m_hooks c) ms then initialize_render fuel h c w
      else Some (Inr (), c, w))"

fun handle_mouse_gain_capture ::
  "nat \<Rightarrow> host \<Rightarrow> component_instance \<Rightarrow> 32 word list \<Rightarrow> world
     \<Rightarrow> ((exn + unit) \<times> component_instance \<times> world) option" where
  "handle_mouse_gain_capture fuel h c [] w = update_capture_state fuel h c Inside_immediate w"
| "handle_mouse_gain_capture fuel h c (r # route) w =
     (case update_capture_state fuel h c Inside_child w of
        None \<Rightarrow> None
      | Some (Inl e, c1, w1) \<Rightarrow> Some (Inl e, c1, w1)
      | Some (Inr u, c1, w1) \<Rightarrow>
          (case find_child (m_children c1) r of
             None \<Rightarrow> Some (Inr (), c1, w1)
           | Some k \<Rightarrow>
               (case handle_mouse_gain_capture fuel h (m_children c1 ! k) route w1 of
                  None \<Rightarrow> None
                | Some (res, c', w2) \<Rightarrow>
                    Some (res, set_children ((m_children c1)[k := c']) c1, w2))))"

fun handle_mouse_lose_capture ::
  "nat \<Rightarrow> host \<Rightarrow> component_instance \<Rightarrow> 32 word list \<Rightarrow> world
     \<Rightarrow> ((exn + unit) \<times> component_instance \<times> world) option" where
  "handle_mouse_lose_capture fuel h c route w =
     (case update_capture_state fuel h c Outside w of
        None \<Rightarrow> None
      | Some (Inl e, c1, w1) \<Rightarrow> Some (Inl e, c1, w1)
      | Some (Inr u, c1, w1) \<Rightarrow>
          (case route of
             [] \<Rightarrow> Some (Inr (), c1, w1)
           | r # route' \<Rightarrow>
               (case find_child (m_children c1) r of
                  None \<Rightarrow> Some (Inr (), c1, w1)
                | Some k \<Rightarrow>
                    (case handle_mouse_lose_capture fuel h (m_children c1 ! k) route' w1 of
                       None \<Rightarrow> None
                     | Some (res, c', w2) \<Rightarrow>
                         Some (res, set_children ((m_children c1)[k := c']) c1, w2)))))"

section \<open>A host to run the engine on\<close>

text \<open>
  A small host: closure 0 traps and every other closure answers 0; view 10 shows a text,
  view 11 traps, view 12 shows one child component whose view is view 10, view 13 shows
  two elements with the keys A and B, each around one child component, and view 14 shows
  one child component whose view is view 11. All component descriptions hash to 0.
\<close>

definition example_html :: "nat \<Rightarrow> html list" where
  "example_html v =
     (if v = 10 then [Of_string ''x'']
      else if v = 12 then [Of_component (VSimple 1) (Pure (VClosure 10))]
      else if v = 13 then
        [Element ''li'' [Val ''key'' ''A''] [Of_component (VSimple 1) (Pure (VClosure 10))],
         Element ''li'' [Val ''key'' ''B''] [Of_component (VSimple 2) (Pure (VClosure 10))]]
      else if v = 14 then [Of_component (VSimple 1) (Pure (VClosure 11))]
      else [])"

definition example_host :: host where
  "example_host =
     \<lparr>invoke = (\<lambda>f args. if f = VClosure 0 then Inl 9 else Inr (VSimple 0)),
      invoke_view = (\<lambda>v p.
        case v of
          VClosure n \<Rightarrow> (if n = 11 then Inl 7 else Inr (example_html n))
        | _ \<Rightarrow> Inr []),
      hash = (\<lambda>c. 0)\<rparr>"

definition example_world :: world where
  "example_world =
     \<lparr>g_fresh_handler_id = 20, g_fresh_component_instance_id = 3, taskq_submitted = [],
      peek = (\<lambda>t. None), uninitialised_m_s = Outside\<rparr>"

text \<open>
  A rendered parent (id 1) whose view is view 14: it has rendered a text before, it has
  no children, and its handler 20 is closure 3.
\<close>

definition example_parent :: component_instance where
  "example_parent =
     Component_instance 1 [] 0 (VSimple 0) (Some (VSimple 0)) [] (VClosure 14)
       [Vdom_string ''x''] [] ((\<lambda>k. None)(20 \<mapsto> VClosure 3)) True 0"

text \<open>
  A new instance (id 7, props 1) and the prior instance (id 3, props 0) of one component
  with the hooks \<open>hooks\<close>; the prior instance has rendered.
\<close>

definition example_new :: "component_hook list \<Rightarrow> component_instance" where
  "example_new hooks =
     Component_instance 7 [1] 0 (VSimple 1) None hooks (VClosure 10) [] [] (\<lambda>k. None) False 0"

definition example_old :: "component_hook list \<Rightarrow> component_instance" where
  "example_old hooks =
     Component_instance 3 [1] 0 (VSimple 0) (Some (VSimple 0)) hooks (VClosure 10)
       [Vdom_string ''x''] [] (\<lambda>k. None) True 4"

text \<open>An element \<^verbatim>\<open>li\<close> with a key and a title, and no children.\<close>

definition example_li :: "string \<Rightarrow> string \<Rightarrow> vdom" where
  "example_li k v = Vdom_element ''li'' [(''key'', JString k), (''title'', JString v)] [] [] None"

text \<open>
  Two keyed elements with one component each, as view 13 renders them; the instances
  the renderer allocates for them; and the instances of a prior rendering of the same
  view, which have rendered since.
\<close>

definition example_nodes :: "vdom list" where
  "example_nodes =
     [Vdom_element ''li'' [(''key'', JString ''A'')] [] [Vdom_component 0] None,
      Vdom_element ''li'' [(''key'', JString ''B'')] [] [Vdom_component 1] None]"

definition example_fresh :: "component_instance list" where
  "example_fresh =
     [Component_instance 3 [0] 0 (VSimple 1) None [] (VClosure 10) [] [] (\<lambda>k. None) False 0,
      Component_instance 4 [0] 0 (VSimple 2) None [] (VClosure 10) [] [] (\<lambda>k. None) False 0]"

definition example_prior :: "component_instance list" where
  "example_prior =
     [Component_instance 1 [0] 0 (VSimple 1) (Some (VSimple 1)) [] (VClosure 10)
        [Vdom_string ''x''] [] (\<lambda>k. None) True 2,
      Component_instance 2 [0] 0 (VSimple 2) (Some (VSimple 2)) [] (VClosure 10)
        [Vdom_string ''x''] [] (\<lambda>k. None) True 0]"

section \<open>Notions used in the statements\<close>

text \<open>
  The values of the \<^verbatim>\<open>val\<close> attributes with the key \<^verbatim>\<open>className\<close>, in the order in
  which the element declares them, and strings joined by single spaces.
\<close>

fun class_names :: "attr list \<Rightarrow> string list" where
  "class_names [] = []"
| "class_names (Val k v # as) = (if k = ''className'' then v # class_names as else class_names as)"
| "class_names (a # as) = class_names as"

fun join_spaces :: "string list \<Rightarrow> string" where
  "join_spaces [] = []"
| "join_spaces [v] = v"
| "join_spaces (v # v' # vs) = v @ '' '' @ join_spaces (v' # vs)"

text \<open>
  For the attribute object \<open>A\<close> that \<^verbatim>\<open>render_element\<close> builds up: the string under
  \<^verbatim>\<open>className\<close>, whether the keys of \<open>A\<close> are distinct and \<^verbatim>\<open>className\<close> is not an
  object, and the merge of one more class name.
\<close>

definition class_of :: "(string \<times> json) list \<Rightarrow> string option" where
  "class_of A = (case map_of A ''className'' of Some (JString cn) \<Rightarrow> Some cn | _ \<Rightarrow> None)"

definition class_ok :: "(string \<times> json) list \<Rightarrow> bool" where
  "class_ok A = (distinct (map fst A) \<and> (\<forall>kvs. map_of A ''className'' \<noteq> Some (JObject kvs)))"

fun class_acc :: "string option \<Rightarrow> string \<Rightarrow> string option" where
  "class_acc None v = Some v"
| "class_acc (Some cn) v = Some (cn @ '' '' @ v)"

text \<open>
  A reconciliation of nodes that also writes down, in order, each pair of a new node and
  the old node it was reconciled against.
\<close>

definition traced ::
  "(vdom \<Rightarrow> vdom \<Rightarrow> 's \<Rightarrow> ((exn + unit) \<times> 's) option) \<Rightarrow> vdom \<Rightarrow> vdom
     \<Rightarrow> 's \<times> (vdom \<times> vdom) list \<Rightarrow> ((exn + unit) \<times> 's \<times> (vdom \<times> vdom) list) option" where
  "traced rc n ov st =
     (case rc n ov (fst st) of
        None \<Rightarrow> None
      | Some (r, s') \<Rightarrow> Some (r, s', snd st @ [(n, ov)]))"

text \<open>
  A rebuilt copy. The signature of an instance is what its component description and
  props determine: the hash, the props and the number of hooks. A new node is a rebuilt
  copy of an old node when both have the same shape, tags and attributes, and each
  component node points to an instance with the signature of the instance the old node
  points to (\<open>sg\<close> lists the signatures of the new instances, \<open>co\<close> is the vector of
  the old instances). \<open>pointers\<close> lists the component nodes of a tree in the order of
  the traversal, and \<open>adopted c old\<close> is \<open>c\<close> after it has taken over the id, the inner
  props, the hooks, the children and the rendering of \<open>old\<close>.
\<close>

definition signature :: "component_instance \<Rightarrow> 32 word \<times> vm_obj \<times> nat" where
  "signature c = (m_component_hash c, m_props c, length (m_hooks c))"

fun rebuilt :: "(32 word \<times> vm_obj \<times> nat) list \<Rightarrow> component_instance list \<Rightarrow> vdom \<Rightarrow> vdom \<Rightarrow> bool" where
  "rebuilt sg co (Vdom_element tag attrs events children tooltip) old =
     (case old of
        Vdom_element otag oattrs oevents ochildren otooltip \<Rightarrow>
          otag = tag \<and> oattrs = attrs \<and> \<not> isl (key old)
          \<and> list_all2 (rebuilt sg co) children ochildren
          \<and> rel_option (rebuilt sg co) tooltip otooltip
      | _ \<Rightarrow> False)"
| "rebuilt sg co (Vdom_string str) old = (old = Vdom_string str)"
| "rebuilt sg co (Vdom_component i) old =
     (case old of
        Vdom_component j \<Rightarrow> i < length sg \<and> j < length co \<and> sg ! i = signature (co ! j)
      | _ \<Rightarrow> False)"

fun pointers :: "vdom \<Rightarrow> nat list" where
  "pointers (Vdom_element tag attrs events children tooltip) =
     concat (map pointers children) @ (case tooltip of None \<Rightarrow> [] | Some t \<Rightarrow> pointers t)"
| "pointers (Vdom_string str) = []"
| "pointers (Vdom_component i) = [i]"

definition all_pointers :: "vdom list \<Rightarrow> nat list" where
  "all_pointers vs = concat (map pointers vs)"

definition adopted :: "component_instance \<Rightarrow> component_instance \<Rightarrow> component_instance" where
  "adopted c old =
     Component_instance (m_id old) (m_route c) (m_component_hash c) (m_props c)
       (m_inner_props old) (m_hooks old) (m_view c) (m_render old) (m_children old)
       (m_handlers c) True (m_reconcile_count old + 1)"

fun adopt_all ::
  "(nat \<times> nat) list \<Rightarrow> component_instance list \<Rightarrow> component_instance list
     \<Rightarrow> component_instance list" where
  "adopt_all [] co cn = cn"
| "adopt_all ((i, j) # ps) co cn = adopt_all ps co (cn[i := adopted (cn ! i) (co ! j)])"


text \<open>What the reconciliation of a rebuilt node against its original does.\<close>

definition reconciles_to_adopted ::
  "nat \<Rightarrow> host \<Rightarrow> world \<Rightarrow> (32 word \<times> vm_obj \<times> nat) list \<Rightarrow> component_instance list \<Rightarrow> vdom \<Rightarrow> bool" where
  "reconciles_to_adopted fuel h w sg co n =
     (\<forall>ov cn. rebuilt sg co n ov \<longrightarrow> map signature cn = sg \<longrightarrow>
        vdom_reconcile fuel h co n ov (cn, w)
          = Some (Inr (), adopt_all (zip (pointers n) (pointers ov)) co cn, w)
        \<and> map signature (adopt_all (zip (pointers n) (pointers ov)) co cn) = sg
        \<and> length (pointers ov) = length (pointers n))"

text \<open>
  Two renderings of one html value. \<open>same_rendering lo hi v v0\<close> says that \<open>v\<close> and
  \<open>v0\<close> have the same shape, tags and attributes, that their component nodes are the
  same pointers, and that these lie from \<open>lo\<close> up to \<open>hi\<close>; \<open>key_ok\<close> says that the
  entry under \<^verbatim>\<open>key\<close> is not an object; \<open>grows\<close> says that two renderings have added
  instances with the same signatures, which have not rendered, to their vectors; \<open>renders_alike\<close> says that two
  renderings of the html value \<open>x\<close> from vectors of the same length are the same in
  this sense.
\<close>

fun same_rendering :: "nat \<Rightarrow> nat \<Rightarrow> vdom \<Rightarrow> vdom \<Rightarrow> bool" where
  "same_rendering lo hi (Vdom_element tag attrs events children tooltip) old =
     (case old of
        Vdom_element otag oattrs oevents ochildren otooltip \<Rightarrow>
          otag = tag \<and> oattrs = attrs \<and> \<not> isl (key old)
          \<and> list_all2 (same_rendering lo hi) children ochildren
          \<and> rel_option (same_rendering lo hi) tooltip otooltip
      | _ \<Rightarrow> False)"
| "same_rendering lo hi (Vdom_string str) old = (old = Vdom_string str)"
| "same_rendering lo hi (Vdom_component i) old = (old = Vdom_component i \<and> lo \<le> i \<and> i < hi)"

definition key_ok :: "(string \<times> json) list \<Rightarrow> bool" where
  "key_ok A = (\<forall>kvs. map_of A ''key'' \<noteq> Some (JObject kvs))"

definition grows :: "render_state \<Rightarrow> render_state \<Rightarrow> render_state \<Rightarrow> render_state \<Rightarrow> bool" where
  "grows st st' st0 st0' =
     (\<exists>cs cs0. components st' = components st @ cs \<and> components st0' = components st0 @ cs0
        \<and> map signature cs = map signature cs0 \<and> (\<forall>c\<in>set cs. m_render c = []))"

definition renders_alike :: "host \<Rightarrow> html \<Rightarrow> bool" where
  "renders_alike h x =
     (\<forall>r r0 st st0 v v0 st' st0'.
        render_html h r x st = (Inr v, st') \<longrightarrow> render_html h r0 x st0 = (Inr v0, st0') \<longrightarrow>
        length (components st) = length (components st0) \<longrightarrow>
          grows st st' st0 st0'
          \<and> same_rendering (length (components st)) (length (components st')) v v0
          \<and> distinct (pointers v))"

fun attr_alike :: "host \<Rightarrow> attr \<Rightarrow> bool" where
  "attr_alike h (Tooltip content) = renders_alike h content"
| "attr_alike h a = True"

text \<open>
  \<open>returns_on f h co v\<close>: the reconciliation of the new node \<open>v\<close> returns when the
  instances it points to have not rendered, and it leaves the other instances alone.
\<close>

definition returns_on :: "nat \<Rightarrow> host \<Rightarrow> component_instance list \<Rightarrow> vdom \<Rightarrow> bool" where
  "returns_on f h co v =
     (\<forall>old cn w.
        (\<forall>i\<in>set (pointers v). i < length cn \<longrightarrow> m_render (cn ! i) = []) \<longrightarrow>
        distinct (pointers v) \<longrightarrow>
        (\<exists>r cn' w'. vdom_reconcile (Suc f) h co v old (cn, w) = Some (r, cn', w')
           \<and> length cn' = length cn \<and> (\<forall>i. i \<notin> set (pointers v) \<longrightarrow> cn' ! i = cn ! i)))"

text \<open>
  \<open>render_mono f\<close>: a render that returns with fuel \<open>f\<close> returns the same with one
  more.
\<close>

definition render_mono :: "nat \<Rightarrow> bool" where
  "render_mono f = (\<forall>h c w res. render f h c w = Some res \<longrightarrow> render (Suc f) h c w = Some res)"

section \<open>Properties of render and reconcile\<close>

lemma render_failure:
  assumes "render fuel h c w = Some (Inl e, c', w')"
  shows "c' = c"
proof (cases fuel)
  case 0
  with assms show ?thesis by simp
next
  case (Suc k)
  with assms show ?thesis
    by (auto split: option.splits sum.splits prod.splits)
qed

lemma render_m_id:
  assumes "render fuel h c w = Some (r, c', w')"
  shows "m_id c' = m_id c"
proof (cases fuel)
  case 0
  with assms show ?thesis by simp
next
  case (Suc k)
  with assms show ?thesis
    by (auto split: option.splits sum.splits prod.splits)
qed

lemma initialize_hooks_props: "initialize_hooks p hks = p"
  by (induction hks arbitrary: p)
    (simp_all add: component_hook_initialize_def component_hook_get_props_def)

lemma initialize_props: "initialize c = set_inner_props (Some (m_props c)) c"
  by (simp add: initialize_def initialize_hooks_props)

lemma reconcile_hooks_False:
  "length hks \<le> length ohks \<Longrightarrow>
   reconcile_hooks False p hks ohks = (Inr (False, p), take (length hks) ohks)"
proof (induction hks arbitrary: ohks)
  case Nil
  show ?case by simp
next
  case (Cons hk hks)
  then obtain o' os where "ohks = o' # os" by (cases ohks) auto
  with Cons show ?case by simp
qed

lemma reconcile_hooks_True:
  "length hks \<le> length ohks \<Longrightarrow> reconcile_hooks True p hks ohks = (Inr (True, p), hks)"
proof (induction hks arbitrary: ohks)
  case Nil
  show ?case by simp
next
  case (Cons hk hks)
  then obtain o' os where "ohks = o' # os" by (cases ohks) auto
  with Cons show ?case
    by (simp add: component_hook_reconcile_def component_hook_get_props_def)
qed

lemma reconcile_hooks_short:
  "length ohks < length hks \<Longrightarrow> \<exists>hooks. reconcile_hooks su p hks ohks = (Inl Undefined, hooks)"
proof (induction hks arbitrary: ohks su)
  case Nil
  then show ?case by simp
next
  case (Cons hk hks)
  show ?case
  proof (cases ohks)
    case Nil
    then show ?thesis by simp
  next
    case (Cons o' os)
    with Cons.prems have "length os < length hks" by simp
    from Cons.IH [OF this, of True] obtain h1 where
      t: "reconcile_hooks True p hks os = (Inl Undefined, h1)" by blast
    from Cons.IH [OF \<open>length os < length hks\<close>, of False] obtain h2 where
      f: "reconcile_hooks False p hks os = (Inl Undefined, h2)" by blast
    from Cons t f show ?thesis
      by (cases su)
        (simp_all add: component_hook_reconcile_def component_hook_get_props_def)
  qed
qed

lemma component_reconcile_same:
  assumes "m_component_hash old = m_component_hash c"
    and "m_props c = m_props old"
    and "length (m_hooks c) = length (m_hooks old)"
  shows "component_reconcile fuel h c (Some old) w =
     Some (Inr (),
       Component_instance (m_id old) (m_route c) (m_component_hash c) (m_props c)
         (m_inner_props old) (m_hooks old) (m_view c) (m_render old) (m_children old)
         (m_handlers c) True (m_reconcile_count old + 1),
       w)"
  using assms by (simp add: reconcile_hooks_False)

lemma adopt_all_append:
  "adopt_all (ps @ qs) co cn = adopt_all qs co (adopt_all ps co cn)"
  by (induction ps arbitrary: cn) auto

lemma length_adopt_all: "length (adopt_all ps co cn) = length cn"
  by (induction ps arbitrary: cn) auto

lemma adopt_all_other:
  "i \<notin> fst ` set ps \<Longrightarrow> adopt_all ps co cn ! i = cn ! i"
  by (induction ps arbitrary: cn) auto

lemma adopt_all_nth:
  "distinct (map fst ps) \<Longrightarrow> (i, j) \<in> set ps \<Longrightarrow> i < length cn
     \<Longrightarrow> adopt_all ps co cn ! i = adopted (cn ! i) (co ! j)"
proof (induction ps arbitrary: cn)
  case Nil
  then show ?case by simp
next
  case (Cons p ps)
  obtain i' j' where p: "p = (i', j')" by (cases p)
  show ?case
  proof (cases "(i, j) = p")
    case True
    with p Cons.prems have "i \<notin> fst ` set ps" by auto
    with True p Cons.prems show ?thesis by (simp add: adopt_all_other)
  next
    case False
    with Cons.prems p have in_ps: "(i, j) \<in> set ps" and ne: "i' \<noteq> i"
      by (auto simp: image_iff)
    from Cons.prems have "distinct (map fst ps)" by simp
    from Cons.IH [OF this in_ps, of "cn[i' := adopted (cn ! i') (co ! j')]"] Cons.prems(3) ne p
    show ?thesis by simp
  qed
qed

lemma key_rebuilt:
  "rebuilt sg co n ov \<Longrightarrow> key n = key ov \<and> \<not> isl (key n)"
  by (cases n; cases ov) (auto split: option.splits json.splits)

lemma signature_adopted:
  "signature c = signature old \<Longrightarrow> signature (adopted c old) = signature c"
  by (simp add: signature_def adopted_def)

lemma component_reconcile_adopted:
  assumes "signature c = signature old"
  shows "component_reconcile fuel h c (Some old) w = Some (Inr (), adopted c old, w)"
  unfolding adopted_def
  using assms by (intro component_reconcile_same) (simp_all add: signature_def)

lemma reconcile_children_rebuilt:
  assumes "\<forall>n\<in>set news. reconciles_to_adopted fuel h w sg co n"
    and "list_all2 (rebuilt sg co) news olds"
    and "map signature cn = sg"
  shows "reconcile_children_with (vdom_reconcile fuel h co) news olds (cn, w)
           = Some (Inr (), adopt_all (zip (all_pointers news) (all_pointers olds)) co cn, w)
       \<and> map signature (adopt_all (zip (all_pointers news) (all_pointers olds)) co cn) = sg
       \<and> length (all_pointers olds) = length (all_pointers news)"
  using assms
proof (induction news arbitrary: olds cn)
  case Nil
  then show ?case by (simp add: all_pointers_def)
next
  case (Cons n ns)
  from Cons.prems(2) obtain ov os where olds: "olds = ov # os"
    and rb: "rebuilt sg co n ov" and rest: "list_all2 (rebuilt sg co) ns os"
    by (cases olds) auto
  let ?cn1 = "adopt_all (zip (pointers n) (pointers ov)) co cn"
  from Cons.prems(1) have "reconciles_to_adopted fuel h w sg co n" by simp
  with rb Cons.prems(3)
  have step: "vdom_reconcile fuel h co n ov (cn, w) = Some (Inr (), ?cn1, w)"
    and sg1: "map signature ?cn1 = sg"
    and len: "length (pointers ov) = length (pointers n)"
    by (simp_all add: reconciles_to_adopted_def)
  from Cons.prems(1) have "\<forall>n\<in>set ns. reconciles_to_adopted fuel h w sg co n" by simp
  from Cons.IH [OF this rest sg1]
  have ih: "reconcile_children_with (vdom_reconcile fuel h co) ns os (?cn1, w)
           = Some (Inr (), adopt_all (zip (all_pointers ns) (all_pointers os)) co ?cn1, w)"
    and sg2: "map signature (adopt_all (zip (all_pointers ns) (all_pointers os)) co ?cn1) = sg"
    and len2: "length (all_pointers os) = length (all_pointers ns)"
    by simp_all
  have z: "zip (all_pointers (n # ns)) (all_pointers olds)
            = zip (pointers n) (pointers ov) @ zip (all_pointers ns) (all_pointers os)"
    using len olds by (simp add: all_pointers_def)
  from key_rebuilt [OF rb] have kk: "key n = key ov" "\<not> isl (key n)" by blast+
  have run: "reconcile_children_with (vdom_reconcile fuel h co) (n # ns) olds (cn, w)
           = reconcile_children_with (vdom_reconcile fuel h co) ns os (?cn1, w)"
  proof (cases "key n")
    case (Inl e)
    with kk(2) show ?thesis by simp
  next
    case (Inr ko)
    show ?thesis
    proof (cases ko)
      case None
      with Inr olds step show ?thesis by simp
    next
      case (Some k)
      with Inr kk(1) have "key ov = Inr (Some k)" by simp
      with olds have "find_old (Some k) olds = Inr (Some 0)" by simp
      with Inr Some olds step show ?thesis by (simp add: erase_def)
    qed
  qed
  from run ih sg2 len len2 z olds show ?case
    by (simp add: adopt_all_append all_pointers_def)
qed

lemma vdom_reconciles_to_adopted:
  "reconciles_to_adopted fuel h w sg co n"
proof (induction n)
  case (Vdom_element tag attrs events children tooltip)
  show ?case
    unfolding reconciles_to_adopted_def
  proof (intro allI impI)
    fix ov cn
    assume rb: "rebuilt sg co (Vdom_element tag attrs events children tooltip) ov"
      and sg: "map signature cn = sg"
    from rb obtain oevents ochildren otooltip where
      ov: "ov = Vdom_element tag attrs oevents ochildren otooltip"
      and ch: "list_all2 (rebuilt sg co) children ochildren"
      and tt: "rel_option (rebuilt sg co) tooltip otooltip"
      by (cases ov) auto
    let ?cn1 = "adopt_all (zip (all_pointers children) (all_pointers ochildren)) co cn"
    have "\<forall>n\<in>set children. reconciles_to_adopted fuel h w sg co n"
      using Vdom_element.IH(1) by simp
    from reconcile_children_rebuilt [OF this ch sg]
    have c1: "reconcile_children_with (vdom_reconcile fuel h co) children ochildren (cn, w)
           = Some (Inr (), ?cn1, w)"
      and sg1: "map signature ?cn1 = sg"
      and len1: "length (all_pointers ochildren) = length (all_pointers children)"
      by simp_all
    show "vdom_reconcile fuel h co (Vdom_element tag attrs events children tooltip) ov (cn, w)
          = Some (Inr (), adopt_all (zip (pointers (Vdom_element tag attrs events children tooltip))
               (pointers ov)) co cn, w)
        \<and> map signature (adopt_all (zip (pointers (Vdom_element tag attrs events children tooltip))
               (pointers ov)) co cn) = sg
        \<and> length (pointers ov) = length (pointers (Vdom_element tag attrs events children tooltip))"
    proof (cases tooltip)
      case None
      with tt have "otooltip = None" by (cases otooltip) auto
      with None ov c1 sg1 len1 show ?thesis by (simp add: all_pointers_def)
    next
      case (Some t)
      with tt obtain ot where ot: "otooltip = Some ot" and rt: "rebuilt sg co t ot"
        by (cases otooltip) auto
      from Vdom_element.IH(2) [of t] Some have "reconciles_to_adopted fuel h w sg co t" by simp
      with rt sg1
      have t1: "vdom_reconcile fuel h co t ot (?cn1, w)
                  = Some (Inr (), adopt_all (zip (pointers t) (pointers ot)) co ?cn1, w)"
        and sg2: "map signature (adopt_all (zip (pointers t) (pointers ot)) co ?cn1) = sg"
        and len2: "length (pointers ot) = length (pointers t)"
        by (simp_all add: reconciles_to_adopted_def)
      from Some ot ov c1 t1 sg2 len1 len2 show ?thesis
        by (simp add: all_pointers_def adopt_all_append)
    qed
  qed
next
  case (Vdom_string str)
  show ?case by (simp add: reconciles_to_adopted_def)
next
  case (Vdom_component i)
  show ?case
    unfolding reconciles_to_adopted_def
  proof (intro allI impI)
    fix ov cn
    assume rb: "rebuilt sg co (Vdom_component i) ov" and sg: "map signature cn = sg"
    from rb obtain j where ov: "ov = Vdom_component j" and i: "i < length sg"
      and j: "j < length co" and eq: "sg ! i = signature (co ! j)"
      by (cases ov) auto
    from sg i have il: "i < length cn" by auto
    with sg eq have s: "signature (cn ! i) = signature (co ! j)" by auto
    have "map signature (cn[i := adopted (cn ! i) (co ! j)]) = map signature cn"
      using il signature_adopted [OF s] by (simp add: map_update list_update_same_conv)
    with ov il j sg component_reconcile_adopted [OF s, of fuel h w]
    show "vdom_reconcile fuel h co (Vdom_component i) ov (cn, w)
          = Some (Inr (), adopt_all (zip (pointers (Vdom_component i)) (pointers ov)) co cn, w)
        \<and> map signature (adopt_all (zip (pointers (Vdom_component i)) (pointers ov)) co cn) = sg
        \<and> length (pointers ov) = length (pointers (Vdom_component i))"
      by (simp del: component_reconcile.simps)
  qed
qed

lemma pointers_rebuilt:
  "rebuilt sg co n ov \<Longrightarrow> i \<in> set (pointers n) \<Longrightarrow> i < length sg"
proof (induction n arbitrary: ov)
  case (Vdom_element tag attrs events children tooltip)
  from Vdom_element.prems(1) obtain oevents ochildren otooltip where
    ov: "ov = Vdom_element tag attrs oevents ochildren otooltip"
    and ch: "list_all2 (rebuilt sg co) children ochildren"
    and tt: "rel_option (rebuilt sg co) tooltip otooltip"
    by (cases ov) auto
  from Vdom_element.prems(2)
  consider (child) c where "c \<in> set children" "i \<in> set (pointers c)"
    | (tip) t where "tooltip = Some t" "i \<in> set (pointers t)"
    by (auto split: option.splits)
  then show ?case
  proof cases
    case child
    from child(1) obtain k where k: "k < length children" "children ! k = c"
      by (auto simp: in_set_conv_nth)
    with ch have "rebuilt sg co c (ochildren ! k)" by (auto dest: list_all2_nthD)
    from Vdom_element.IH(1) [OF child(1) this child(2)] show ?thesis .
  next
    case tip
    with tt obtain ot where "rebuilt sg co t ot" by (cases otooltip) auto
    from Vdom_element.IH(2) [of t, OF _ this tip(2)] tip(1) show ?thesis by simp
  qed
next
  case (Vdom_string str)
  then show ?case by simp
next
  case (Vdom_component j)
  then show ?case by (cases ov) auto
qed

lemma all_pointers_rebuilt:
  assumes "list_all2 (rebuilt sg co) news olds" and "i \<in> set (all_pointers news)"
  shows "i < length sg"
proof -
  from assms(2) obtain n where n: "n \<in> set news" "i \<in> set (pointers n)"
    by (auto simp: all_pointers_def)
  from n(1) obtain k where k: "k < length news" "news ! k = n"
    by (auto simp: in_set_conv_nth)
  with assms(1) have "rebuilt sg co n (olds ! k)" by (auto dest: list_all2_nthD)
  from pointers_rebuilt [OF this n(2)] show ?thesis .
qed

lemma reconcile_rebuilt_copy:
  assumes "list_all2 (rebuilt (map signature cn) co) news olds"
    and "distinct (all_pointers news)"
  shows "reconcile_children_with (vdom_reconcile fuel h co) news olds (cn, w)
           = Some (Inr (), adopt_all (zip (all_pointers news) (all_pointers olds)) co cn, w)"
    and "length (all_pointers olds) = length (all_pointers news)"
    and "\<And>q. q < length (all_pointers news) \<Longrightarrow>
           adopt_all (zip (all_pointers news) (all_pointers olds)) co cn ! (all_pointers news ! q)
             = adopted (cn ! (all_pointers news ! q)) (co ! (all_pointers olds ! q))"
    and "\<And>i. i \<notin> set (all_pointers news) \<Longrightarrow>
           adopt_all (zip (all_pointers news) (all_pointers olds)) co cn ! i = cn ! i"
proof -
  let ?ps = "zip (all_pointers news) (all_pointers olds)"
  let ?cn' = "adopt_all ?ps co cn"
  have "\<forall>n\<in>set news. reconciles_to_adopted fuel h w (map signature cn) co n"
    by (simp add: vdom_reconciles_to_adopted)
  from reconcile_children_rebuilt [OF this assms(1) refl]
  show run: "reconcile_children_with (vdom_reconcile fuel h co) news olds (cn, w)
               = Some (Inr (), ?cn', w)"
    and len: "length (all_pointers olds) = length (all_pointers news)"
    by simp_all
  from len have fst_ps: "map fst ?ps = all_pointers news" by simp
  show "?cn' ! (all_pointers news ! q)
        = adopted (cn ! (all_pointers news ! q)) (co ! (all_pointers olds ! q))"
    if q: "q < length (all_pointers news)" for q
  proof -
    from q len have "(all_pointers news ! q, all_pointers olds ! q) \<in> set ?ps"
      by (auto simp: set_zip)
    moreover from assms(2) fst_ps have "distinct (map fst ?ps)" by simp
    moreover from q have "all_pointers news ! q \<in> set (all_pointers news)" by simp
    with assms(1) have "all_pointers news ! q < length cn"
      by (auto dest: all_pointers_rebuilt)
    ultimately show ?thesis by (simp add: adopt_all_nth)
  qed
  show "?cn' ! i = cn ! i" if "i \<notin> set (all_pointers news)" for i
  proof -
    from that fst_ps have "i \<notin> fst ` set ?ps" by (metis set_map)
    then show ?thesis by (rule adopt_all_other)
  qed
qed

lemma grows_refl: "grows st st st0 st0"
  by (simp add: grows_def)

lemma grows_trans:
  "grows st st1 st0 st01 \<Longrightarrow> grows st1 st2 st01 st02 \<Longrightarrow> grows st st2 st0 st02"
  by (auto simp: grows_def)

lemma grows_length:
  "grows st st' st0 st0' \<Longrightarrow> length (components st) = length (components st0)
     \<Longrightarrow> length (components st') = length (components st0')
       \<and> length (components st) \<le> length (components st')"
  by (auto simp: grows_def dest: map_eq_imp_length_eq)

lemma grows_cong:
  "components a = components st \<Longrightarrow> components a' = components st'
     \<Longrightarrow> components b = components st0 \<Longrightarrow> components b' = components st0'
     \<Longrightarrow> grows a a' b b' = grows st st' st0 st0'"
  by (simp add: grows_def)

lemma same_rendering_mono:
  "same_rendering lo hi v v0 \<Longrightarrow> lo' \<le> lo \<Longrightarrow> hi \<le> hi' \<Longrightarrow> same_rendering lo' hi' v v0"
proof (induction v arbitrary: v0)
  case (Vdom_element tag attrs events children tooltip)
  from Vdom_element.prems(1) obtain oevents ochildren otooltip where
    v0: "v0 = Vdom_element tag attrs oevents ochildren otooltip"
    and k: "\<not> isl (key v0)"
    and ch: "list_all2 (same_rendering lo hi) children ochildren"
    and tt: "rel_option (same_rendering lo hi) tooltip otooltip"
    by (cases v0) auto
  from ch have "list_all2 (same_rendering lo' hi') children ochildren"
    by (rule list.rel_mono_strong) (use Vdom_element in auto)
  moreover from tt have "rel_option (same_rendering lo' hi') tooltip otooltip"
    by (rule option.rel_mono_strong) (use Vdom_element in auto)
  ultimately show ?case using v0 k by simp
next
  case (Vdom_string str)
  then show ?case by simp
next
  case (Vdom_component i)
  then show ?case by auto
qed

lemma same_rendering_pointers:
  "same_rendering lo hi v v0 \<Longrightarrow> i \<in> set (pointers v) \<Longrightarrow> lo \<le> i \<and> i < hi"
proof (induction v arbitrary: v0)
  case (Vdom_element tag attrs events children tooltip)
  from Vdom_element.prems(1) obtain oevents ochildren otooltip where
    ch: "list_all2 (same_rendering lo hi) children ochildren"
    and tt: "rel_option (same_rendering lo hi) tooltip otooltip"
    by (cases v0) auto
  from Vdom_element.prems(2)
  consider (child) c where "c \<in> set children" "i \<in> set (pointers c)"
    | (tip) t where "tooltip = Some t" "i \<in> set (pointers t)"
    by (auto split: option.splits)
  then show ?case
  proof cases
    case child
    from child(1) obtain k where k: "k < length children" "children ! k = c"
      by (auto simp: in_set_conv_nth)
    with ch have "same_rendering lo hi c (ochildren ! k)" by (auto dest: list_all2_nthD)
    from Vdom_element.IH(1) [OF child(1) this child(2)] show ?thesis .
  next
    case tip
    with tt obtain ot where "same_rendering lo hi t ot" by (cases otooltip) auto
    from Vdom_element.IH(2) [of t, OF _ this tip(2)] tip(1) show ?thesis by simp
  qed
next
  case (Vdom_string str)
  then show ?case by simp
next
  case (Vdom_component j)
  then show ?case by auto
qed

lemma same_rendering_rebuilt:
  "same_rendering lo hi v v0
     \<Longrightarrow> (\<forall>i. lo \<le> i \<and> i < hi \<longrightarrow> i < length sg \<and> i < length co \<and> sg ! i = signature (co ! i))
     \<Longrightarrow> rebuilt sg co v v0"
proof (induction v arbitrary: v0)
  case (Vdom_element tag attrs events children tooltip)
  from Vdom_element.prems(1) obtain oevents ochildren otooltip where
    v0: "v0 = Vdom_element tag attrs oevents ochildren otooltip"
    and k: "\<not> isl (key v0)"
    and ch: "list_all2 (same_rendering lo hi) children ochildren"
    and tt: "rel_option (same_rendering lo hi) tooltip otooltip"
    by (cases v0) auto
  from ch have "list_all2 (rebuilt sg co) children ochildren"
    by (rule list.rel_mono_strong) (use Vdom_element in auto)
  moreover from tt have "rel_option (rebuilt sg co) tooltip otooltip"
    by (rule option.rel_mono_strong) (use Vdom_element in auto)
  ultimately show ?case using v0 k by simp
next
  case (Vdom_string str)
  then show ?case by simp
next
  case (Vdom_component i)
  then show ?case by auto
qed

lemma length_component_hooks:
  "length acc = length acc'
     \<Longrightarrow> length (fst (component_hooks s c acc)) = length (fst (component_hooks s' c acc'))"
  by (induction c arbitrary: acc acc') auto

lemma signature_new_component_instance:
  "signature (fst (new_component_instance h c p r w))
     = signature (fst (new_component_instance h c p r0 w0))"
  using length_component_hooks [of "[]" "[]" "uninitialised_m_s w" c "uninitialised_m_s w0"]
  by (auto simp: new_component_instance_def signature_def split: prod.splits)

lemma new_component_instance_fresh:
  "m_render (fst (new_component_instance h c p r w)) = []"
  by (simp add: new_component_instance_def split: prod.splits)

lemma key_ok_render_val:
  "render_val k v A = Inr A' \<Longrightarrow> key_ok A \<Longrightarrow> key_ok A'"
  by (auto simp: render_val_def key_ok_def update_conv' split: if_splits option.splits json.splits)

lemma key_ok_render_style:
  "render_style l A = Inr A' \<Longrightarrow> key_ok A \<Longrightarrow> key_ok A'"
proof (induction l arbitrary: A)
  case Nil
  then show ?case by simp
next
  case (Cons kv l)
  obtain k v where kv: "kv = (k, v)" by (cases kv)
  show ?case
  proof (cases "map_of A ''style''")
    case None
    let ?B = "AList.update ''style'' (JObject [(k, JString v)]) A"
    from Cons.prems None kv have "render_style l ?B = Inr A'" by simp
    moreover from Cons.prems(2) have "key_ok ?B" by (simp add: key_ok_def update_conv')
    ultimately show ?thesis by (rule Cons.IH)
  next
    case (Some j)
    show ?thesis
    proof (cases j)
      case (JString s)
      with Cons.prems Some kv show ?thesis by simp
    next
      case (JObject kvs)
      let ?B = "AList.update ''style'' (JObject (AList.update k (JString v) kvs)) A"
      from Cons.prems Some JObject kv have "render_style l ?B = Inr A'" by simp
      moreover from Cons.prems(2) have "key_ok ?B" by (simp add: key_ok_def update_conv')
      ultimately show ?thesis by (rule Cons.IH)
    qed
  qed
qed

lemma same_rendering_all_pointers:
  assumes "list_all2 (same_rendering lo hi) vs vs0" and "i \<in> set (all_pointers vs)"
  shows "lo \<le> i \<and> i < hi"
proof -
  from assms(2) obtain v where v: "v \<in> set vs" "i \<in> set (pointers v)"
    by (auto simp: all_pointers_def)
  from v(1) obtain k where k: "k < length vs" "vs ! k = v"
    by (auto simp: in_set_conv_nth)
  with assms(1) have "same_rendering lo hi v (vs0 ! k)" by (auto dest: list_all2_nthD)
  from same_rendering_pointers [OF this v(2)] show ?thesis .
qed

lemma render_html_list_alike:
  assumes "\<forall>x\<in>set xs. renders_alike h x"
    and "render_html_list h r xs st = (Inr vs, st')"
    and "render_html_list h r0 xs st0 = (Inr vs0, st0')"
    and "length (components st) = length (components st0)"
  shows "grows st st' st0 st0'
       \<and> list_all2 (same_rendering (length (components st)) (length (components st'))) vs vs0
       \<and> distinct (all_pointers vs)"
  using assms
proof (induction xs arbitrary: st st0 vs vs0)
  case Nil
  then show ?case by (simp add: grows_refl all_pointers_def)
next
  case (Cons x xs)
  from Cons.prems(2) obtain v st1 vs1 where
    x: "render_html h r x st = (Inr v, st1)"
    and xs: "render_html_list h r xs st1 = (Inr vs1, st')" and vs: "vs = v # vs1"
    by (auto split: prod.splits sum.splits)
  from Cons.prems(3) obtain v0 st01 vs01 where
    x0: "render_html h r0 x st0 = (Inr v0, st01)"
    and xs0: "render_html_list h r0 xs st01 = (Inr vs01, st0')" and vs0: "vs0 = v0 # vs01"
    by (auto split: prod.splits sum.splits)
  from Cons.prems(1) have "renders_alike h x" by simp
  with x x0 Cons.prems(4)
  have g1: "grows st st1 st0 st01"
    and s1: "same_rendering (length (components st)) (length (components st1)) v v0"
    and d1: "distinct (pointers v)"
    unfolding renders_alike_def by blast+
  from grows_length [OF g1 Cons.prems(4)]
  have l1: "length (components st1) = length (components st01)"
    and le1: "length (components st) \<le> length (components st1)"
    by simp_all
  from Cons.prems(1) have "\<forall>x\<in>set xs. renders_alike h x" by simp
  from Cons.IH [OF this xs xs0 l1]
  have g2: "grows st1 st' st01 st0'"
    and s2: "list_all2 (same_rendering (length (components st1)) (length (components st'))) vs1 vs01"
    and d2: "distinct (all_pointers vs1)"
    by simp_all
  from grows_length [OF g2 l1] have le2: "length (components st1) \<le> length (components st')"
    by simp
  from s1 le2 have s1': "same_rendering (length (components st)) (length (components st')) v v0"
    by (rule same_rendering_mono [OF _ le_refl])
  from s2 have s2': "list_all2 (same_rendering (length (components st)) (length (components st')))
      vs1 vs01"
    by (rule list.rel_mono_strong) (use le1 in \<open>auto intro: same_rendering_mono\<close>)
  have disj: "set (pointers v) \<inter> set (all_pointers vs1) = {}"
  proof -
    have "i < length (components st1)" if "i \<in> set (pointers v)" for i
      using same_rendering_pointers [OF s1 that] by simp
    moreover have "length (components st1) \<le> i" if "i \<in> set (all_pointers vs1)" for i
      using same_rendering_all_pointers [OF s2 that] by simp
    ultimately show ?thesis by fastforce
  qed
  from grows_trans [OF g1 g2] s1' s2' d1 d2 disj vs vs0 show ?case
    by (simp add: all_pointers_def)
qed

lemma components_render_event:
  "components (snd (render_event name handler events st)) = components st"
  by (simp add: render_event_def Let_def)

lemma render_attrs_alike:
  assumes "\<forall>a\<in>set as. attr_alike h a"
    and "render_attrs h r as (A, E, T) st = (Inr (A', E', T'), st')"
    and "render_attrs h r0 as (A, E0, T0) st0 = (Inr (A0', E0', T0'), st0')"
    and "length (components st) = length (components st0)"
    and "key_ok A"
    and "lo \<le> length (components st)"
    and "rel_option (same_rendering lo (length (components st))) T T0"
    and "\<forall>t. T = Some t \<longrightarrow> distinct (pointers t)"
  shows "grows st st' st0 st0' \<and> A0' = A' \<and> key_ok A'
       \<and> rel_option (same_rendering lo (length (components st'))) T' T0'
       \<and> (\<forall>t. T' = Some t \<longrightarrow> distinct (pointers t))"
  using assms
proof (induction as arbitrary: A E T E0 T0 st st0)
  case Nil
  then show ?case by (simp add: grows_refl)
next
  case (Cons a as)
  from Cons.prems(1) have rest_alike: "\<forall>a\<in>set as. attr_alike h a" by simp
  show ?case
  proof (cases a)
    case (Val k v)
    with Cons.prems(2) obtain B where B: "render_val k v A = Inr B"
      and run: "render_attrs h r as (B, E, T) st = (Inr (A', E', T'), st')"
      by (auto split: sum.splits)
    from Val Cons.prems(3) B
    have run0: "render_attrs h r0 as (B, E0, T0) st0 = (Inr (A0', E0', T0'), st0')"
      by simp
    from key_ok_render_val [OF B Cons.prems(5)] have "key_ok B" .
    from Cons.IH [OF rest_alike run run0 Cons.prems(4) this Cons.prems(6,7,8)]
    show ?thesis .
  next
    case (Style l)
    with Cons.prems(2) obtain B where B: "render_style l A = Inr B"
      and run: "render_attrs h r as (B, E, T) st = (Inr (A', E', T'), st')"
      by (auto split: sum.splits)
    from Style Cons.prems(3) B
    have run0: "render_attrs h r0 as (B, E0, T0) st0 = (Inr (A0', E0', T0'), st0')"
      by simp
    from key_ok_render_style [OF B Cons.prems(5)] have "key_ok B" .
    from Cons.IH [OF rest_alike run run0 Cons.prems(4) this Cons.prems(6,7,8)]
    show ?thesis .
  next
    case (Mouse_event kind handler)
    define name where "name = (case kind of On_click \<Rightarrow> ''onClick''
      | On_mouse_enter \<Rightarrow> ''onMouseEnter'' | On_mouse_leave \<Rightarrow> ''onMouseLeave'')"
    obtain E1 st1 where e: "render_event name handler E st = (E1, st1)"
      by (cases "render_event name handler E st")
    obtain E01 st01 where e0: "render_event name handler E0 st0 = (E01, st01)"
      by (cases "render_event name handler E0 st0")
    from e e0 have c: "components st1 = components st" "components st01 = components st0"
      using components_render_event [of name handler E st]
        components_render_event [of name handler E0 st0] by simp_all
    from Mouse_event Cons.prems(2) e
    have run: "render_attrs h r as (A, E1, T) st1 = (Inr (A', E', T'), st')"
      by (simp add: name_def)
    from Mouse_event Cons.prems(3) e0
    have run0: "render_attrs h r0 as (A, E01, T0) st01 = (Inr (A0', E0', T0'), st0')"
      by (simp add: name_def)
    from Cons.IH [OF rest_alike run run0] c Cons.prems(4-8)
    have "grows st1 st' st01 st0' \<and> A0' = A' \<and> key_ok A'
       \<and> rel_option (same_rendering lo (length (components st'))) T' T0'
       \<and> (\<forall>t. T' = Some t \<longrightarrow> distinct (pointers t))"
      by simp
    with c show ?thesis by (simp add: grows_def)
  next
    case (Text_change_event handler)
    obtain E1 st1 where e: "render_event ''onChange'' handler E st = (E1, st1)"
      by (cases "render_event ''onChange'' handler E st")
    obtain E01 st01 where e0: "render_event ''onChange'' handler E0 st0 = (E01, st01)"
      by (cases "render_event ''onChange'' handler E0 st0")
    from e e0 have c: "components st1 = components st" "components st01 = components st0"
      using components_render_event [of "''onChange''" handler E st]
        components_render_event [of "''onChange''" handler E0 st0] by simp_all
    from Text_change_event Cons.prems(2) e
    have run: "render_attrs h r as (A, E1, T) st1 = (Inr (A', E', T'), st')"
      by simp
    from Text_change_event Cons.prems(3) e0
    have run0: "render_attrs h r0 as (A, E01, T0) st01 = (Inr (A0', E0', T0'), st0')"
      by simp
    from Cons.IH [OF rest_alike run run0] c Cons.prems(4-8)
    have "grows st1 st' st01 st0' \<and> A0' = A' \<and> key_ok A'
       \<and> rel_option (same_rendering lo (length (components st'))) T' T0'
       \<and> (\<forall>t. T' = Some t \<longrightarrow> distinct (pointers t))"
      by simp
    with c show ?thesis by (simp add: grows_def)
  next
    case (Tooltip content)
    with Cons.prems(2) obtain t st1 where
      x: "render_html h r content st = (Inr t, st1)"
      and run: "render_attrs h r as (A, E, Some t) st1 = (Inr (A', E', T'), st')"
      by (auto split: prod.splits sum.splits)
    from Tooltip Cons.prems(3) obtain t0 st01 where
      x0: "render_html h r0 content st0 = (Inr t0, st01)"
      and run0: "render_attrs h r0 as (A, E0, Some t0) st01 = (Inr (A0', E0', T0'), st0')"
      by (auto split: prod.splits sum.splits)
    from Tooltip Cons.prems(1) have "renders_alike h content" by simp
    with x x0 Cons.prems(4)
    have g1: "grows st st1 st0 st01"
      and s1: "same_rendering (length (components st)) (length (components st1)) t t0"
      and d1: "distinct (pointers t)"
      unfolding renders_alike_def by blast+
    from grows_length [OF g1 Cons.prems(4)]
    have l1: "length (components st1) = length (components st01)"
      and le1: "length (components st) \<le> length (components st1)"
      by simp_all
    from s1 Cons.prems(6) have "same_rendering lo (length (components st1)) t t0"
      by (rule same_rendering_mono) simp
    then have tt: "rel_option (same_rendering lo (length (components st1))) (Some t) (Some t0)"
      by simp
    from Cons.prems(6) le1 have lo1: "lo \<le> length (components st1)" by simp
    from d1 have dd: "\<forall>u. Some t = Some u \<longrightarrow> distinct (pointers u)" by simp
    from Cons.IH [OF rest_alike run run0 l1 Cons.prems(5) lo1 tt dd]
    have "grows st1 st' st01 st0' \<and> A0' = A' \<and> key_ok A'
       \<and> rel_option (same_rendering lo (length (components st'))) T' T0'
       \<and> (\<forall>t. T' = Some t \<longrightarrow> distinct (pointers t))" .
    with grows_trans [OF g1] show ?thesis by blast
  qed
qed

lemma all_renders_alike: "renders_alike h x"
proof (rule html.induct [where ?P1.0 = "renders_alike h" and ?P2.0 = "attr_alike h"])
  fix tag as cs
  assume attrs: "\<And>a. a \<in> set as \<Longrightarrow> attr_alike h a"
    and children: "\<And>c. c \<in> set cs \<Longrightarrow> renders_alike h c"
  show "renders_alike h (Element tag as cs)"
    unfolding renders_alike_def
  proof (intro allI impI)
    fix r r0 st st0 v v0 st' st0'
    assume run: "render_html h r (Element tag as cs) st = (Inr v, st')"
      and run0: "render_html h r0 (Element tag as cs) st0 = (Inr v0, st0')"
      and len: "length (components st) = length (components st0)"
    from run obtain A E T st1 ch where
      ra: "render_attrs h r as ([], [], None) st = (Inr (A, E, T), st1)"
      and rc: "render_html_list h r cs st1 = (Inr ch, st')"
      and v: "v = Vdom_element tag A E ch T"
      by (auto split: prod.splits sum.splits)
    from run0 obtain A0 E0 T0 st01 ch0 where
      ra0: "render_attrs h r0 as ([], [], None) st0 = (Inr (A0, E0, T0), st01)"
      and rc0: "render_html_list h r0 cs st01 = (Inr ch0, st0')"
      and v0: "v0 = Vdom_element tag A0 E0 ch0 T0"
      by (auto split: prod.splits sum.splits)
    have a_alike: "\<forall>a\<in>set as. attr_alike h a" using attrs by simp
    have k0: "key_ok []" by (simp add: key_ok_def)
    have t0: "rel_option (same_rendering (length (components st)) (length (components st)))
        None None"
      by simp
    have d0: "\<forall>t. (None :: vdom option) = Some t \<longrightarrow> distinct (pointers t)" by simp
    from render_attrs_alike [OF a_alike ra ra0 len k0 le_refl t0 d0]
    have g1: "grows st st1 st0 st01" and A: "A0 = A" and kA: "key_ok A"
      and tt: "rel_option (same_rendering (length (components st)) (length (components st1))) T T0"
      and dT: "\<forall>t. T = Some t \<longrightarrow> distinct (pointers t)"
      by simp_all
    from grows_length [OF g1 len]
    have l1: "length (components st1) = length (components st01)"
      and le1: "length (components st) \<le> length (components st1)"
      by simp_all
    have c_alike: "\<forall>c\<in>set cs. renders_alike h c" using children by simp
    from render_html_list_alike [OF c_alike rc rc0 l1]
    have g2: "grows st1 st' st01 st0'"
      and s2: "list_all2 (same_rendering (length (components st1)) (length (components st'))) ch ch0"
      and d2: "distinct (all_pointers ch)"
      by simp_all
    from grows_length [OF g2 l1] have le2: "length (components st1) \<le> length (components st')"
      by simp
    from s2 have s2': "list_all2 (same_rendering (length (components st)) (length (components st')))
        ch ch0"
      by (rule list.rel_mono_strong) (use le1 in \<open>auto intro: same_rendering_mono\<close>)
    from tt have tt': "rel_option (same_rendering (length (components st)) (length (components st')))
        T T0"
      by (rule option.rel_mono_strong) (use le2 in \<open>auto intro: same_rendering_mono\<close>)
    from kA have key: "\<not> isl (key (Vdom_element tag A E0 ch0 T0))"
      by (auto simp: key_ok_def split: option.splits json.splits)
    have disj: "set (all_pointers ch) \<inter> set (pointers t) = {}" if T: "T = Some t" for t
    proof -
      from tt T obtain u where
        "same_rendering (length (components st)) (length (components st1)) t u"
        by (cases T0) auto
      then have "i < length (components st1)" if "i \<in> set (pointers t)" for i
        using same_rendering_pointers that by blast
      moreover have "length (components st1) \<le> i" if "i \<in> set (all_pointers ch)" for i
        using same_rendering_all_pointers [OF s2 that] by simp
      ultimately show ?thesis by fastforce
    qed
    have dist: "distinct (pointers v)"
    proof (cases T)
      case None
      with v d2 show ?thesis by (simp add: all_pointers_def)
    next
      case (Some t)
      with v d2 dT disj [OF Some] show ?thesis by (simp add: all_pointers_def)
    qed
    from grows_trans [OF g1 g2] s2' tt' key dist v v0 A
    show "grows st st' st0 st0'
          \<and> same_rendering (length (components st)) (length (components st')) v v0
          \<and> distinct (pointers v)"
      by simp
  qed
next
  fix s
  show "renders_alike h (Of_string s)"
    by (auto simp: renders_alike_def grows_refl)
next
  fix props cmp
  show "renders_alike h (Of_component props cmp)"
    unfolding renders_alike_def
  proof (intro allI impI)
    fix r r0 st st0 v v0 st' st0'
    assume run: "render_html h r (Of_component props cmp) st = (Inr v, st')"
      and run0: "render_html h r0 (Of_component props cmp) st0 = (Inr v0, st0')"
      and len: "length (components st) = length (components st0)"
    from run have v: "v = Vdom_component (length (components st))"
      and c: "components st' = components st @ [fst (new_component_instance h cmp props r (rworld st))]"
      by (auto split: prod.splits)
    from run0 have v0: "v0 = Vdom_component (length (components st0))"
      and c0: "components st0' = components st0
                 @ [fst (new_component_instance h cmp props r0 (rworld st0))]"
      by (auto split: prod.splits)
    from c c0 signature_new_component_instance [of h cmp props r "rworld st" r0 "rworld st0"]
    have "grows st st' st0 st0'" by (simp add: grows_def new_component_instance_fresh)
    with v v0 len c show "grows st st' st0 st0'
          \<and> same_rendering (length (components st)) (length (components st')) v v0
          \<and> distinct (pointers v)"
      by simp
  qed
next
  fix content
  assume "renders_alike h content"
  then show "attr_alike h (Tooltip content)" by simp
qed simp_all

lemma rendered_again_rebuilt:
  assumes "render_html_list h r xs st = (Inr news, st')"
    and "render_html_list h r0 xs st0 = (Inr olds, st0')"
    and "components st = []" and "components st0 = []"
    and "map signature co = map signature (components st0')"
  shows "list_all2 (rebuilt (map signature (components st')) co) news olds
       \<and> distinct (all_pointers news)"
proof -
  have alike: "\<forall>x\<in>set xs. renders_alike h x" by (simp add: all_renders_alike)
  from assms(3,4) have len: "length (components st) = length (components st0)" by simp
  from render_html_list_alike [OF alike assms(1,2) len]
  have g: "grows st st' st0 st0'"
    and s: "list_all2 (same_rendering (length (components st)) (length (components st'))) news olds"
    and d: "distinct (all_pointers news)"
    by simp_all
  from g assms(3,4) have sigs: "map signature (components st') = map signature (components st0')"
    by (simp add: grows_def)
  have agree: "\<forall>i. length (components st) \<le> i \<and> i < length (components st') \<longrightarrow>
      i < length (map signature (components st')) \<and> i < length co
      \<and> map signature (components st') ! i = signature (co ! i)"
  proof (intro allI impI)
    fix i
    assume i: "length (components st) \<le> i \<and> i < length (components st')"
    from sigs assms(5) have eq: "map signature co = map signature (components st')" by simp
    then have "length co = length (components st')" by (auto dest: map_eq_imp_length_eq)
    moreover from eq i have "map signature co ! i = map signature (components st') ! i" by simp
    ultimately show "i < length (map signature (components st')) \<and> i < length co
      \<and> map signature (components st') ! i = signature (co ! i)"
      using i by simp
  qed
  from s have "list_all2 (rebuilt (map signature (components st')) co) news olds"
    by (rule list.rel_mono_strong) (use agree in \<open>auto intro: same_rendering_rebuilt\<close>)
  with d show ?thesis by simp
qed

lemma same_rendering_same_pointers:
  "same_rendering lo hi v v0 \<Longrightarrow> pointers v0 = pointers v"
proof (induction v arbitrary: v0)
  case (Vdom_element tag attrs events children tooltip)
  from Vdom_element.prems obtain oevents ochildren otooltip where
    v0: "v0 = Vdom_element tag attrs oevents ochildren otooltip"
    and ch: "list_all2 (same_rendering lo hi) children ochildren"
    and tt: "rel_option (same_rendering lo hi) tooltip otooltip"
    by (cases v0) auto
  from ch have "list_all2 (\<lambda>c oc. pointers oc = pointers c) children ochildren"
    by (rule list.rel_mono_strong) (use Vdom_element.IH(1) in auto)
  then have "map pointers ochildren = map pointers children"
    by (induction rule: list_all2_induct) auto
  moreover from tt have "(case otooltip of None \<Rightarrow> [] | Some t \<Rightarrow> pointers t)
      = (case tooltip of None \<Rightarrow> [] | Some t \<Rightarrow> pointers t)"
    using Vdom_element.IH(2) by (cases tooltip; cases otooltip) auto
  ultimately show ?case using v0 by simp
next
  case (Vdom_string str)
  then show ?case by simp
next
  case (Vdom_component i)
  then show ?case by simp
qed

lemma rendered_again_same_pointers:
  assumes "render_html_list h r xs st = (Inr news, st')"
    and "render_html_list h r0 xs st0 = (Inr olds, st0')"
    and "length (components st) = length (components st0)"
  shows "all_pointers olds = all_pointers news"
proof -
  have alike: "\<forall>x\<in>set xs. renders_alike h x" by (simp add: all_renders_alike)
  from render_html_list_alike [OF alike assms]
  have "list_all2 (same_rendering (length (components st)) (length (components st'))) news olds"
    by simp
  then have "list_all2 (\<lambda>v v0. pointers v0 = pointers v) news olds"
    by (rule list.rel_mono_strong) (auto dest: same_rendering_same_pointers)
  then have "map pointers olds = map pointers news"
    by (induction rule: list_all2_induct) auto
  then show ?thesis by (simp add: all_pointers_def)
qed

text \<open>
  Claim C1. A view's html is rendered again and the new nodes are reconciled against
  the nodes of the prior rendering, whose instances still have the component
  descriptions and props they were made with. Then every component instance of the new
  tree takes the path on which \<^verbatim>\<open>should_update\<close> is false: the reconciliation returns
  and leaves the world as it is, and the instance has the id, the inner props, the
  children, the rendering and the hooks of the prior instance at its place, a
  \<^verbatim>\<open>m_reconcile_count\<close> one above the prior one, and \<^verbatim>\<open>m_has_rendered\<close> set.
\<close>

theorem reconcile_rendered_again:
  assumes "render_html_list h r0 xs st0 = (Inr olds, st0')"
    and "render_html_list h r xs st = (Inr news, st')"
    and "components st0 = []" and "components st = []"
    and "map signature co = map signature (components st0')"
  shows "\<exists>cn'. reconcile_children_with (vdom_reconcile fuel h co) news olds (components st', w)
                  = Some (Inr (), cn', w)
      \<and> length cn' = length (components st')
      \<and> length co = length (components st')
      \<and> (\<forall>i\<in>set (all_pointers news).
            i < length cn'
          \<and> m_id (cn' ! i) = m_id (co ! i)
          \<and> m_inner_props (cn' ! i) = m_inner_props (co ! i)
          \<and> m_children (cn' ! i) = m_children (co ! i)
          \<and> m_render (cn' ! i) = m_render (co ! i)
          \<and> m_hooks (cn' ! i) = m_hooks (co ! i)
          \<and> m_reconcile_count (cn' ! i) = m_reconcile_count (co ! i) + 1
          \<and> m_has_rendered (cn' ! i)
          \<and> m_props (cn' ! i) = m_props (components st' ! i))
      \<and> (\<forall>i<length cn'. i \<notin> set (all_pointers news) \<longrightarrow> cn' ! i = components st' ! i)"
proof -
  let ?cn = "components st'"
  let ?cn' = "adopt_all (zip (all_pointers news) (all_pointers olds)) co ?cn"
  from rendered_again_rebuilt [OF assms(2,1,4,3,5)]
  have rb: "list_all2 (rebuilt (map signature ?cn) co) news olds"
    and d: "distinct (all_pointers news)"
    by simp_all
  from assms(3,4) have l0: "length (components st) = length (components st0)" by simp
  from rendered_again_same_pointers [OF assms(2,1) l0]
  have same: "all_pointers olds = all_pointers news" .
  note copy = reconcile_rebuilt_copy [OF rb d]
  have run: "reconcile_children_with (vdom_reconcile fuel h co) news olds (?cn, w)
            = Some (Inr (), ?cn', w)"
    by (rule copy(1))
  have len: "length ?cn' = length ?cn" by (rule length_adopt_all)
  have alike: "\<forall>x\<in>set xs. renders_alike h x" by (simp add: all_renders_alike)
  from render_html_list_alike [OF alike assms(2,1) l0] have "grows st st' st0 st0'" by simp
  with assms(3,4) have "map signature ?cn = map signature (components st0')"
    by (simp add: grows_def)
  with assms(5) have "map signature co = map signature ?cn" by simp
  then have lco: "length co = length ?cn" by (rule map_eq_imp_length_eq)
  have ptr: "i < length ?cn'" if "i \<in> set (all_pointers news)" for i
    using all_pointers_rebuilt [OF rb that] len by simp
  have at: "?cn' ! i = adopted (?cn ! i) (co ! i)" if "i \<in> set (all_pointers news)" for i
  proof -
    from that obtain q where q: "q < length (all_pointers news)" "all_pointers news ! q = i"
      by (auto simp: in_set_conv_nth)
    from copy(3) [OF q(1)] q(2) same show ?thesis by simp
  qed
  have other: "?cn' ! i = ?cn ! i" if "i \<notin> set (all_pointers news)" for i
    using that by (rule copy(4))
  show ?thesis
  proof (intro exI [of _ ?cn'] conjI ballI allI impI)
    fix i
    assume i: "i \<in> set (all_pointers news)"
    from ptr [OF i] show "i < length ?cn'" .
    from at [OF i] show "m_id (?cn' ! i) = m_id (co ! i)"
      and "m_inner_props (?cn' ! i) = m_inner_props (co ! i)"
      and "m_children (?cn' ! i) = m_children (co ! i)"
      and "m_render (?cn' ! i) = m_render (co ! i)"
      and "m_hooks (?cn' ! i) = m_hooks (co ! i)"
      and "m_reconcile_count (?cn' ! i) = m_reconcile_count (co ! i) + 1"
      and "m_has_rendered (?cn' ! i)"
      and "m_props (?cn' ! i) = m_props (?cn ! i)"
      by (simp_all add: adopted_def)
  next
    fix i
    assume "i \<notin> set (all_pointers news)"
    then show "?cn' ! i = ?cn ! i" by (rule other)
  qed (use run len lco in simp_all)
qed

text \<open>
  On the example: view 13 was rendered into instances with the ids 1 and 2, which have
  rendered since; it is rendered again into instances with the ids 3 and 4, which take over
  the ids 1 and 2.
\<close>

theorem reconcile_rendered_again_witness:
  "render_html_list example_host [0] (example_html 13)
       \<lparr>components = [], handlers = (\<lambda>k. None),
        rworld = example_world\<lparr>g_fresh_component_instance_id := 1\<rparr>\<rparr> =
     (Inr example_nodes,
      \<lparr>components =
         [Component_instance 1 [0] 0 (VSimple 1) None [] (VClosure 10) [] [] (\<lambda>k. None) False 0,
          Component_instance 2 [0] 0 (VSimple 2) None [] (VClosure 10) [] [] (\<lambda>k. None) False 0],
       handlers = (\<lambda>k. None), rworld = example_world\<rparr>)
   \<and> render_html_list example_host [0] (example_html 13)
       \<lparr>components = [], handlers = (\<lambda>k. None), rworld = example_world\<rparr> =
     (Inr example_nodes,
      \<lparr>components = example_fresh, handlers = (\<lambda>k. None),
       rworld = example_world\<lparr>g_fresh_component_instance_id := 5\<rparr>\<rparr>)
   \<and> reconcile_children_with (vdom_reconcile 0 example_host example_prior)
       example_nodes example_nodes (example_fresh, example_world) =
     Some (Inr (),
       [Component_instance 1 [0] 0 (VSimple 1) (Some (VSimple 1)) [] (VClosure 10)
          [Vdom_string ''x''] [] (\<lambda>k. None) True 3,
        Component_instance 2 [0] 0 (VSimple 2) (Some (VSimple 2)) [] (VClosure 10)
          [Vdom_string ''x''] [] (\<lambda>k. None) True 1],
       example_world)"
proof -
  let ?pa = "\<lparr>components = [], handlers = (\<lambda>k. None),
        rworld = example_world\<lparr>g_fresh_component_instance_id := 1\<rparr>\<rparr>"
  let ?pb = "\<lparr>components =
         [Component_instance 1 [0] 0 (VSimple 1) None [] (VClosure 10) [] [] (\<lambda>k. None) False 0,
          Component_instance 2 [0] 0 (VSimple 2) None [] (VClosure 10) [] [] (\<lambda>k. None) False 0],
       handlers = (\<lambda>k. None), rworld = example_world\<rparr>"
  let ?na = "\<lparr>components = [], handlers = (\<lambda>k. None), rworld = example_world\<rparr>"
  let ?nb = "\<lparr>components = example_fresh, handlers = (\<lambda>k. None),
       rworld = example_world\<lparr>g_fresh_component_instance_id := 5\<rparr>\<rparr>"
  have prior: "render_html_list example_host [0] (example_html 13) ?pa
      = (Inr example_nodes, ?pb)"
    by (simp add: example_html_def example_nodes_def example_host_def
        example_world_def new_component_instance_def render_val_def)
  have again: "render_html_list example_host [0] (example_html 13) ?na
      = (Inr example_nodes, ?nb)"
    by (simp add: example_html_def example_nodes_def example_fresh_def example_host_def
        example_world_def new_component_instance_def render_val_def)
  have empty0: "components ?pa = []" and empty: "components ?na = []" by simp_all
  have sigs: "map signature example_prior = map signature (components ?pb)"
    by (simp add: example_prior_def signature_def)
  have run: "reconcile_children_with (vdom_reconcile 0 example_host example_prior)
       example_nodes example_nodes (example_fresh, example_world) =
     Some (Inr (),
       [Component_instance 1 [0] 0 (VSimple 1) (Some (VSimple 1)) [] (VClosure 10)
          [Vdom_string ''x''] [] (\<lambda>k. None) True 3,
        Component_instance 2 [0] 0 (VSimple 2) (Some (VSimple 2)) [] (VClosure 10)
          [Vdom_string ''x''] [] (\<lambda>k. None) True 1],
       example_world)"
    by (simp add: example_nodes_def example_fresh_def example_prior_def erase_def)
  from reconcile_rendered_again [OF prior again empty0 empty sigs, of 0 example_world]
    prior again run
  show ?thesis by simp
qed

section \<open>Render returns\<close>

lemma reconcile_children_no_olds:
  "\<exists>r. reconcile_children_with rc news [] s = Some (r, s)"
  by (induction news) (auto split: sum.splits option.splits)

lemma render_fresh_returns:
  assumes "m_render c = []"
  shows "\<exists>res. render (Suc f) h c w = Some res"
proof (cases "m_inner_props c")
  case None
  then show ?thesis by simp
next
  case (Some ip)
  show ?thesis
  proof (cases "invoke_view h (m_view c) ip")
    case (Inl t)
    with Some show ?thesis by simp
  next
    case (Inr view)
    obtain res st where rl: "render_html_list h (m_id c # m_route c) view
        \<lparr>components = [], handlers = (\<lambda>k. None), rworld = w\<rparr> = (res, st)"
      by (cases "render_html_list h (m_id c # m_route c) view
        \<lparr>components = [], handlers = (\<lambda>k. None), rworld = w\<rparr>")
    show ?thesis
    proof (cases res)
      case (Inl e)
      with Some Inr rl show ?thesis by simp
    next
      case elems: (Inr elements)
      from reconcile_children_no_olds
        [of "vdom_reconcile f h (m_children c)" elements "(components st, rworld st)"]
      obtain r where
        "reconcile_children_with (vdom_reconcile f h (m_children c)) elements []
           (components st, rworld st) = Some (r, components st, rworld st)"
        by auto
      with Some Inr rl elems assms show ?thesis by (cases r) simp_all
    qed
  qed
qed

lemma m_render_initialize: "m_render (initialize c) = m_render c"
  by (simp add: initialize_def set_inner_props_def)

lemma component_reconcile_fresh_returns:
  assumes "m_render c = []"
  shows "\<exists>res. component_reconcile (Suc f) h c ci_old w = Some res"
proof -
  from assms have "m_render (initialize c) = []" by (simp add: m_render_initialize)
  from render_fresh_returns [OF this, of f h w]
  have fresh: "\<exists>res. render (Suc f) h (initialize c) w = Some res" .
  show ?thesis
  proof (cases "case ci_old of None \<Rightarrow> None
      | Some old \<Rightarrow> if m_component_hash old = m_component_hash c then Some old else None")
    case None
    with fresh show ?thesis by (simp del: render.simps)
  next
    case (Some old)
    obtain res hooks where rh: "reconcile_hooks (m_props c \<noteq> m_props old) (m_props c)
        (m_hooks c) (m_hooks old) = (res, hooks)"
      by (cases "reconcile_hooks (m_props c \<noteq> m_props old) (m_props c)
        (m_hooks c) (m_hooks old)")
    show ?thesis
    proof (cases res)
      case (Inl e)
      with Some rh show ?thesis by (simp del: render.simps)
    next
      case (Inr sp)
      obtain su p where sp: "sp = (su, p)" by (cases sp)
      have "m_render (set_inner_props (Some p) (set_hooks hooks c)) = []"
        using assms by (simp add: set_inner_props_def set_hooks_def)
      from render_fresh_returns [OF this, of f h w] Some rh Inr sp show ?thesis
        by (cases su) (simp_all del: render.simps)
    qed
  qed
qed

lemma reconcile_children_step:
  "reconcile_children_with rc (n # ns) olds s = reconcile_children_with rc ns olds s
   \<or> (\<exists>ov olds'. reconcile_children_with rc (n # ns) olds s =
         (case rc n ov s of
            None \<Rightarrow> None
          | Some (Inl e, s1) \<Rightarrow> Some (Inl e, s1)
          | Some (Inr u, s1) \<Rightarrow> reconcile_children_with rc ns olds' s1))
   \<or> (\<exists>e'. reconcile_children_with rc (n # ns) olds s = Some (Inl e', s))"
proof (cases "key n")
  case (Inl e')
  then show ?thesis by simp
next
  case (Inr ko)
  show ?thesis
  proof (cases ko)
    case None
    show ?thesis
    proof (cases olds)
      case Nil
      with Inr None show ?thesis by simp
    next
      case (Cons ov rest)
      with Inr None have "reconcile_children_with rc (n # ns) olds s =
         (case rc n ov s of
            None \<Rightarrow> None
          | Some (Inl e, s1) \<Rightarrow> Some (Inl e, s1)
          | Some (Inr u, s1) \<Rightarrow> reconcile_children_with rc ns rest s1)"
        by simp
      then show ?thesis by blast
    qed
  next
    case (Some k)
    show ?thesis
    proof (cases "find_old (Some k) olds")
      case (Inl e')
      with Inr Some show ?thesis by simp
    next
      case fo: (Inr jo)
      show ?thesis
      proof (cases jo)
        case None
        with Inr Some fo show ?thesis by simp
      next
        case j: (Some j)
        with Inr Some fo have "reconcile_children_with rc (n # ns) olds s =
         (case rc n (olds ! j) s of
            None \<Rightarrow> None
          | Some (Inl e, s1) \<Rightarrow> Some (Inl e, s1)
          | Some (Inr u, s1) \<Rightarrow> reconcile_children_with rc ns (erase olds j) s1)"
          by simp
        then show ?thesis by blast
      qed
    qed
  qed
qed

lemma reconcile_children_returns:
  assumes "\<forall>n\<in>set news. returns_on f h co n"
    and "distinct (all_pointers news)"
    and "\<forall>i\<in>set (all_pointers news). i < length cn \<longrightarrow> m_render (cn ! i) = []"
  shows "\<exists>r cn' w'. reconcile_children_with (vdom_reconcile (Suc f) h co) news olds (cn, w)
             = Some (r, cn', w')
           \<and> length cn' = length cn
           \<and> (\<forall>i. i \<notin> set (all_pointers news) \<longrightarrow> cn' ! i = cn ! i)"
  using assms
proof (induction news arbitrary: olds cn w)
  case Nil
  then show ?case by simp
next
  case (Cons n ns)
  let ?rc = "vdom_reconcile (Suc f) h co"
  from Cons.prems(2) have dn: "distinct (pointers n)" and dns: "distinct (all_pointers ns)"
    and disj: "set (pointers n) \<inter> set (all_pointers ns) = {}"
    by (simp_all add: all_pointers_def)
  from Cons.prems(1) have rn: "returns_on f h co n"
    and rns: "\<forall>n\<in>set ns. returns_on f h co n"
    by simp_all
  have sub: "set (all_pointers ns) \<subseteq> set (all_pointers (n # ns))"
    and sub': "set (pointers n) \<subseteq> set (all_pointers (n # ns))"
    by (auto simp: all_pointers_def)
  from reconcile_children_step [of ?rc n ns olds "(cn, w)"]
  consider (same) "reconcile_children_with ?rc (n # ns) olds (cn, w)
        = reconcile_children_with ?rc ns olds (cn, w)"
    | (call) ov olds' where "reconcile_children_with ?rc (n # ns) olds (cn, w) =
         (case ?rc n ov (cn, w) of
            None \<Rightarrow> None
          | Some (Inl e, s1) \<Rightarrow> Some (Inl e, s1)
          | Some (Inr u, s1) \<Rightarrow> reconcile_children_with ?rc ns olds' s1)"
    | (throw) e' where "reconcile_children_with ?rc (n # ns) olds (cn, w) = Some (Inl e', cn, w)"
    by blast
  then show ?case
  proof cases
    case same
    from Cons.prems(3) sub
    have "\<forall>i\<in>set (all_pointers ns). i < length cn \<longrightarrow> m_render (cn ! i) = []" by blast
    from Cons.IH [OF rns dns this, of olds w] obtain r cn' w' where
      "reconcile_children_with ?rc ns olds (cn, w) = Some (r, cn', w')"
      "length cn' = length cn" "\<forall>i. i \<notin> set (all_pointers ns) \<longrightarrow> cn' ! i = cn ! i"
      by blast
    with same sub show ?thesis by (intro exI [of _ r] exI [of _ cn'] exI [of _ w']) auto
  next
    case throw
    then show ?thesis by auto
  next
    case call
    from Cons.prems(3) sub'
    have "\<forall>i\<in>set (pointers n). i < length cn \<longrightarrow> m_render (cn ! i) = []" by blast
    with rn dn obtain r1 cn1 w1 where
      step: "?rc n ov (cn, w) = Some (r1, cn1, w1)" and l1: "length cn1 = length cn"
      and u1: "\<forall>i. i \<notin> set (pointers n) \<longrightarrow> cn1 ! i = cn ! i"
      unfolding returns_on_def by blast
    show ?thesis
    proof (cases r1)
      case (Inl e)
      with call step have "reconcile_children_with ?rc (n # ns) olds (cn, w)
          = Some (Inl e, cn1, w1)"
        by simp
      moreover from u1 sub' have "\<forall>i. i \<notin> set (all_pointers (n # ns)) \<longrightarrow> cn1 ! i = cn ! i"
        by blast
      ultimately show ?thesis using l1 by blast
    next
      case (Inr u)
      have fresh1: "\<forall>i\<in>set (all_pointers ns). i < length cn1 \<longrightarrow> m_render (cn1 ! i) = []"
      proof (intro ballI impI)
        fix i
        assume i: "i \<in> set (all_pointers ns)" and il: "i < length cn1"
        from i disj have "i \<notin> set (pointers n)" by blast
        with u1 have "cn1 ! i = cn ! i" by simp
        moreover from Cons.prems(3) i sub il l1 have "m_render (cn ! i) = []" by auto
        ultimately show "m_render (cn1 ! i) = []" by simp
      qed
      from Cons.IH [OF rns dns fresh1, of olds' w1] obtain r cn' w' where
        rest: "reconcile_children_with ?rc ns olds' (cn1, w1) = Some (r, cn', w')"
        and l2: "length cn' = length cn1"
        and u2: "\<forall>i. i \<notin> set (all_pointers ns) \<longrightarrow> cn' ! i = cn1 ! i"
        by blast
      from call step Inr rest have "reconcile_children_with ?rc (n # ns) olds (cn, w)
          = Some (r, cn', w')"
        by simp
      moreover from u1 u2 have "\<forall>i. i \<notin> set (all_pointers (n # ns)) \<longrightarrow> cn' ! i = cn ! i"
        by (simp add: all_pointers_def)
      ultimately show ?thesis using l1 l2 by (intro exI [of _ r] exI [of _ cn'] exI [of _ w']) simp
    qed
  qed
qed

lemma vdom_reconcile_returns: "returns_on f h co v"
proof (induction v)
  case (Vdom_element tag attrs events children tooltip)
  show ?case
    unfolding returns_on_def
  proof (intro allI impI)
    fix old :: vdom and cn :: "component_instance list" and w :: world
    let ?v = "Vdom_element tag attrs events children tooltip"
    assume fresh: "\<forall>i\<in>set (pointers ?v). i < length cn \<longrightarrow> m_render (cn ! i) = []"
      and dist: "distinct (pointers ?v)"
    have trivial: "\<exists>r cn' w'. Some (Inr (), cn, w) = Some (r, cn', w') \<and> length cn' = length cn
        \<and> (\<forall>i. i \<notin> set (pointers ?v) \<longrightarrow> cn' ! i = cn ! i)"
      by simp
    show "\<exists>r cn' w'. vdom_reconcile (Suc f) h co ?v old (cn, w) = Some (r, cn', w')
        \<and> length cn' = length cn \<and> (\<forall>i. i \<notin> set (pointers ?v) \<longrightarrow> cn' ! i = cn ! i)"
    proof (cases "\<exists>oattrs oevents ochildren otooltip.
        old = Vdom_element tag oattrs oevents ochildren otooltip")
      case False
      then have "vdom_reconcile (Suc f) h co ?v old (cn, w) = Some (Inr (), cn, w)"
        by (cases old) auto
      with trivial show ?thesis by simp
    next
      case True
      then obtain oattrs oevents ochildren otooltip where
        old: "old = Vdom_element tag oattrs oevents ochildren otooltip"
        by blast
      from dist have dch: "distinct (all_pointers children)" by (simp add: all_pointers_def)
      from fresh have fch: "\<forall>i\<in>set (all_pointers children). i < length cn
          \<longrightarrow> m_render (cn ! i) = []"
        by (auto simp: all_pointers_def)
      have "\<forall>n\<in>set children. returns_on f h co n" using Vdom_element.IH(1) by simp
      from reconcile_children_returns [OF this dch fch, of ochildren w]
      obtain r1 cn1 w1 where
        c1: "reconcile_children_with (vdom_reconcile (Suc f) h co) children ochildren (cn, w)
               = Some (r1, cn1, w1)"
        and l1: "length cn1 = length cn"
        and u1: "\<forall>i. i \<notin> set (all_pointers children) \<longrightarrow> cn1 ! i = cn ! i"
        by blast
      have u1': "\<forall>i. i \<notin> set (pointers ?v) \<longrightarrow> cn1 ! i = cn ! i"
        using u1 by (simp add: all_pointers_def)
      show ?thesis
      proof (cases r1)
        case (Inl e)
        with old c1 have "vdom_reconcile (Suc f) h co ?v old (cn, w) = Some (Inl e, cn1, w1)"
          by simp
        with l1 u1' show ?thesis by blast
      next
        case (Inr u)
        show ?thesis
        proof (cases "\<exists>t ot. tooltip = Some t \<and> otooltip = Some ot")
          case False
          with old c1 Inr have "vdom_reconcile (Suc f) h co ?v old (cn, w) = Some (Inr (), cn1, w1)"
            by (cases tooltip; cases otooltip) auto
          with l1 u1' show ?thesis by blast
        next
          case True
          then obtain t ot where t: "tooltip = Some t" "otooltip = Some ot" by blast
          from Vdom_element.IH(2) [of t] t have rt: "returns_on f h co t" by simp
          from dist t have dt: "distinct (pointers t)"
            and disj: "set (all_pointers children) \<inter> set (pointers t) = {}"
            by (simp_all add: all_pointers_def)
          have ft: "\<forall>i\<in>set (pointers t). i < length cn1 \<longrightarrow> m_render (cn1 ! i) = []"
          proof (intro ballI impI)
            fix i
            assume i: "i \<in> set (pointers t)" and il: "i < length cn1"
            from i disj have "i \<notin> set (all_pointers children)" by blast
            with u1 have "cn1 ! i = cn ! i" by simp
            moreover from fresh i t il l1 have "m_render (cn ! i) = []" by auto
            ultimately show "m_render (cn1 ! i) = []" by simp
          qed
          from rt ft dt obtain r2 cn2 w2 where
            c2: "vdom_reconcile (Suc f) h co t ot (cn1, w1) = Some (r2, cn2, w2)"
            and l2: "length cn2 = length cn1"
            and u2: "\<forall>i. i \<notin> set (pointers t) \<longrightarrow> cn2 ! i = cn1 ! i"
            unfolding returns_on_def by blast
          from old c1 Inr t c2
          have "vdom_reconcile (Suc f) h co ?v old (cn, w) = Some (r2, cn2, w2)" by simp
          moreover from u1 u2 t have "\<forall>i. i \<notin> set (pointers ?v) \<longrightarrow> cn2 ! i = cn ! i"
            by (simp add: all_pointers_def)
          ultimately show ?thesis using l1 l2
            by (intro exI [of _ r2] exI [of _ cn2] exI [of _ w2]) simp
        qed
      qed
    qed
  qed
next
  case (Vdom_string str)
  show ?case by (simp add: returns_on_def)
next
  case (Vdom_component i)
  show ?case
    unfolding returns_on_def
  proof (intro allI impI)
    fix old :: vdom and cn :: "component_instance list" and w :: world
    assume fresh: "\<forall>k\<in>set (pointers (Vdom_component i)). k < length cn \<longrightarrow> m_render (cn ! k) = []"
    show "\<exists>r cn' w'. vdom_reconcile (Suc f) h co (Vdom_component i) old (cn, w) = Some (r, cn', w')
        \<and> length cn' = length cn
        \<and> (\<forall>k. k \<notin> set (pointers (Vdom_component i)) \<longrightarrow> cn' ! k = cn ! k)"
    proof (cases "i < length cn")
      case False
      then show ?thesis by simp
    next
      case True
      with fresh have fr: "m_render (cn ! i) = []" by simp
      define ci_old where "ci_old = (case old of Vdom_component j \<Rightarrow> Some (co ! j) | _ \<Rightarrow> None)"
      show ?thesis
      proof (cases "\<exists>j. old = Vdom_component j \<and> \<not> j < length co")
        case True
        with \<open>i < length cn\<close> show ?thesis by auto
      next
        case False
        from component_reconcile_fresh_returns [OF fr, of f h ci_old w]
        obtain r c w1 where cr: "component_reconcile (Suc f) h (cn ! i) ci_old w = Some (r, c, w1)"
          by (metis prod_cases3)
        from False \<open>i < length cn\<close> cr
        have "vdom_reconcile (Suc f) h co (Vdom_component i) old (cn, w)
                = Some (r, cn[i := c], w1)"
          by (cases old) (auto simp: ci_old_def simp del: component_reconcile.simps)
        then show ?thesis by simp
      qed
    qed
  qed
qed

lemma render_returns:
  "\<exists>res. render (Suc (Suc f)) h c w = Some res"
proof (cases "m_inner_props c")
  case None
  then show ?thesis by simp
next
  case (Some ip)
  show ?thesis
  proof (cases "invoke_view h (m_view c) ip")
    case (Inl t)
    with Some show ?thesis by simp
  next
    case (Inr view)
    let ?init = "\<lparr>components = [], handlers = (\<lambda>k. None), rworld = w\<rparr>"
    obtain res st where rl: "render_html_list h (m_id c # m_route c) view ?init = (res, st)"
      by (cases "render_html_list h (m_id c # m_route c) view ?init")
    show ?thesis
    proof (cases res)
      case (Inl e)
      with Some Inr rl show ?thesis by simp
    next
      case elems: (Inr elements)
      with rl have run: "render_html_list h (m_id c # m_route c) view ?init = (Inr elements, st)"
        by simp
      have alike: "\<forall>x\<in>set view. renders_alike h x" by (simp add: all_renders_alike)
      from render_html_list_alike [OF alike run run]
      have g: "grows ?init st ?init st" and d: "distinct (all_pointers elements)" by simp_all
      from g have "\<forall>c\<in>set (components st). m_render c = []" by (auto simp: grows_def)
      then have fresh: "\<forall>i\<in>set (all_pointers elements). i < length (components st)
          \<longrightarrow> m_render (components st ! i) = []"
        by simp
      have "\<forall>n\<in>set elements. returns_on f h (m_children c) n"
        by (simp add: vdom_reconcile_returns)
      from reconcile_children_returns [OF this d fresh, of "m_render c" "rworld st"]
      obtain r cn' w' where
        "reconcile_children_with (vdom_reconcile (Suc f) h (m_children c)) elements (m_render c)
           (components st, rworld st) = Some (r, cn', w')"
        by blast
      with Some Inr run show ?thesis by (cases r) simp_all
    qed
  qed
qed

section \<open>The fuel of render\<close>

text \<open>
  The fuel bounds the nesting of calls of \<^verbatim>\<open>render\<close>. More fuel never changes a result
  and two units are always enough: the instances that a render reconciles are fresh (their
  own rendering is empty), so their render has no prior node to reconcile against.
\<close>

lemma reconcile_children_shape:
  "(\<forall>rc s. reconcile_children_with rc (n # ns) olds s = reconcile_children_with rc ns olds s)
   \<or> (\<exists>ov olds'. \<forall>rc s. reconcile_children_with rc (n # ns) olds s =
         (case rc n ov s of
            None \<Rightarrow> None
          | Some (Inl e, s1) \<Rightarrow> Some (Inl e, s1)
          | Some (Inr u, s1) \<Rightarrow> reconcile_children_with rc ns olds' s1))
   \<or> (\<exists>e'. \<forall>rc s. reconcile_children_with rc (n # ns) olds s = Some (Inl e', s))"
proof (cases "key n")
  case (Inl e')
  then show ?thesis by simp
next
  case (Inr ko)
  show ?thesis
  proof (cases ko)
    case None
    show ?thesis
    proof (cases olds)
      case Nil
      with Inr None show ?thesis by simp
    next
      case (Cons ov rest)
      with Inr None have "\<forall>rc s. reconcile_children_with rc (n # ns) olds s =
         (case rc n ov s of
            None \<Rightarrow> None
          | Some (Inl e, s1) \<Rightarrow> Some (Inl e, s1)
          | Some (Inr u, s1) \<Rightarrow> reconcile_children_with rc ns rest s1)"
        by simp
      then show ?thesis by blast
    qed
  next
    case (Some k)
    show ?thesis
    proof (cases "find_old (Some k) olds")
      case (Inl e')
      with Inr Some show ?thesis by simp
    next
      case fo: (Inr jo)
      show ?thesis
      proof (cases jo)
        case None
        with Inr Some fo show ?thesis by simp
      next
        case j: (Some j)
        with Inr Some fo have "\<forall>rc s. reconcile_children_with rc (n # ns) olds s =
         (case rc n (olds ! j) s of
            None \<Rightarrow> None
          | Some (Inl e, s1) \<Rightarrow> Some (Inl e, s1)
          | Some (Inr u, s1) \<Rightarrow> reconcile_children_with rc ns (erase olds j) s1)"
          by simp
        then show ?thesis by blast
      qed
    qed
  qed
qed

lemma reconcile_children_with_mono:
  assumes "\<And>n ov t y. n \<in> set news \<Longrightarrow> rc n ov t = Some y \<Longrightarrow> rc' n ov t = Some y"
    and "reconcile_children_with rc news olds (s :: 's) = Some res"
  shows "reconcile_children_with rc' news olds s = Some res"
  using assms
proof (induction news arbitrary: olds s)
  case Nil
  then show ?case by simp
next
  case (Cons n ns)
  have step: "\<And>ov t y. rc n ov t = Some y \<Longrightarrow> rc' n ov t = Some y"
    using Cons.prems(1) by simp
  have rest: "\<And>os t. reconcile_children_with rc ns os t = Some res
      \<Longrightarrow> reconcile_children_with rc' ns os t = Some res"
    using Cons.IH Cons.prems(1) by simp
  from reconcile_children_shape [of n ns olds] show ?case
  proof (elim disjE exE)
    assume same: "\<forall>rc (s :: 's). reconcile_children_with rc (n # ns) olds s
        = reconcile_children_with rc ns olds s"
    have "reconcile_children_with rc (n # ns) olds s = reconcile_children_with rc ns olds s"
      and "reconcile_children_with rc' (n # ns) olds s = reconcile_children_with rc' ns olds s"
      by (simp_all only: same [rule_format])
    with Cons.prems(2) rest show ?thesis by simp
  next
    fix e'
    assume throw: "\<forall>rc (s :: 's). reconcile_children_with rc (n # ns) olds s = Some (Inl e', s)"
    have "reconcile_children_with rc (n # ns) olds s = Some (Inl e', s)"
      and "reconcile_children_with rc' (n # ns) olds s = Some (Inl e', s)"
      by (simp_all only: throw [rule_format])
    with Cons.prems(2) show ?thesis by simp
  next
    fix ov olds'
    assume call: "\<forall>rc (s :: 's). reconcile_children_with rc (n # ns) olds s =
         (case rc n ov s of
            None \<Rightarrow> None
          | Some (Inl e, s1) \<Rightarrow> Some (Inl e, s1)
          | Some (Inr u, s1) \<Rightarrow> reconcile_children_with rc ns olds' s1)"
    have L: "reconcile_children_with rc (n # ns) olds s =
         (case rc n ov s of
            None \<Rightarrow> None
          | Some (Inl e, s1) \<Rightarrow> Some (Inl e, s1)
          | Some (Inr u, s1) \<Rightarrow> reconcile_children_with rc ns olds' s1)"
      by (rule call [rule_format])
    have R: "reconcile_children_with rc' (n # ns) olds s =
         (case rc' n ov s of
            None \<Rightarrow> None
          | Some (Inl e, s1) \<Rightarrow> Some (Inl e, s1)
          | Some (Inr u, s1) \<Rightarrow> reconcile_children_with rc' ns olds' s1)"
      by (rule call [rule_format])
    show ?thesis
    proof (cases "rc n ov s")
      case None
      with L Cons.prems(2) show ?thesis by simp
    next
      case (Some y)
      from step [OF Some] have y': "rc' n ov s = Some y" .
      obtain a s1 where y: "y = (a, s1)" by (cases y)
      show ?thesis
      proof (cases a)
        case (Inl e)
        from L Some y Inl Cons.prems(2) have "Some res = Some (Inl e, s1)" by simp
        moreover from R y' y Inl
        have "reconcile_children_with rc' (n # ns) olds s = Some (Inl e, s1)" by simp
        ultimately show ?thesis by simp
      next
        case (Inr u)
        from L Some y Inr Cons.prems(2)
        have "reconcile_children_with rc ns olds' s1 = Some res" by simp
        from rest [OF this] R y' y Inr show ?thesis by simp
      qed
    qed
  qed
qed

lemma component_reconcile_shape:
  "(\<exists>y. \<forall>f. component_reconcile f h c ci_old w = Some y)
   \<or> (\<exists>c' w'. \<forall>f. component_reconcile f h c ci_old w = render f h c' w')"
proof (cases "case ci_old of None \<Rightarrow> None
    | Some old \<Rightarrow> if m_component_hash old = m_component_hash c then Some old else None")
  case None
  then have "\<forall>f. component_reconcile f h c ci_old w = render f h (initialize c) w"
    by simp
  then show ?thesis by blast
next
  case (Some old)
  obtain r hooks where
    rh: "reconcile_hooks (m_props c \<noteq> m_props old) (m_props c) (m_hooks c) (m_hooks old)
      = (r, hooks)"
    by (cases "reconcile_hooks (m_props c \<noteq> m_props old) (m_props c) (m_hooks c)
      (m_hooks old)")
  show ?thesis
  proof (cases r)
    case (Inl e)
    with Some rh have "\<forall>f. component_reconcile f h c ci_old w
        = Some (Inl e, set_hooks hooks c, w)"
      by simp
    then show ?thesis by blast
  next
    case (Inr sp)
    obtain should_update p_new where sp: "sp = (should_update, p_new)" by (cases sp)
    show ?thesis
    proof (cases should_update)
      case True
      with Some rh Inr sp have "\<forall>f. component_reconcile f h c ci_old w
          = render f h (set_inner_props (Some p_new) (set_hooks hooks c)) w"
        by simp
      then show ?thesis by blast
    next
      case False
      with Some rh Inr sp have "\<forall>f. component_reconcile f h c ci_old w
          = Some (Inr (),
              Component_instance (m_id old) (m_route c) (m_component_hash c) (m_props c)
                (m_inner_props old) hooks (m_view c) (m_render old) (m_children old)
                (m_handlers c) True (m_reconcile_count old + 1),
              w)"
        by simp
      then show ?thesis by blast
    qed
  qed
qed

lemma component_reconcile_mono:
  assumes "render_mono f" and "component_reconcile f h c ci_old w = Some res"
  shows "component_reconcile (Suc f) h c ci_old w = Some res"
proof -
  from component_reconcile_shape [of h c ci_old w] show ?thesis
  proof (elim disjE exE)
    fix y
    assume const: "\<forall>f. component_reconcile f h c ci_old w = Some y"
    have "component_reconcile f h c ci_old w = Some y"
      and "component_reconcile (Suc f) h c ci_old w = Some y"
      by (simp_all only: const [rule_format])
    with assms(2) show ?thesis by simp
  next
    fix c' w'
    assume call: "\<forall>f. component_reconcile f h c ci_old w = render f h c' w'"
    have L: "component_reconcile f h c ci_old w = render f h c' w'"
      and R: "component_reconcile (Suc f) h c ci_old w = render (Suc f) h c' w'"
      by (simp_all only: call [rule_format])
    from assms(2) L have "render f h c' w' = Some res" by simp
    with assms(1) have "render (Suc f) h c' w' = Some res"
      unfolding render_mono_def by blast
    with R show ?thesis by (simp only:)
  qed
qed

lemma vdom_reconcile_mono:
  assumes "render_mono f"
  shows "vdom_reconcile f h co v old s = Some res \<Longrightarrow> vdom_reconcile (Suc f) h co v old s = Some res"
proof (induction v arbitrary: old s res)
  case (Vdom_element tag attrs events children tooltip)
  let ?v = "Vdom_element tag attrs events children tooltip"
  show ?case
  proof (cases "\<exists>oattrs oevents ochildren otooltip.
        old = Vdom_element tag oattrs oevents ochildren otooltip")
    case False
    then have "vdom_reconcile f h co ?v old s = Some (Inr (), s)"
      and "vdom_reconcile (Suc f) h co ?v old s = Some (Inr (), s)"
      by (cases old; auto)+
    with Vdom_element.prems show ?thesis by simp
  next
    case True
    then obtain oattrs oevents ochildren otooltip where
      old: "old = Vdom_element tag oattrs oevents ochildren otooltip"
      by blast
    show ?thesis
    proof (cases "reconcile_children_with (vdom_reconcile f h co) children ochildren s")
      case None
      with Vdom_element.prems old show ?thesis by simp
    next
      case (Some r1)
      have r1': "reconcile_children_with (vdom_reconcile (Suc f) h co) children ochildren s
          = Some r1"
        by (rule reconcile_children_with_mono [OF _ Some]) (use Vdom_element.IH(1) in blast)
      obtain a s1 where r1: "r1 = (a, s1)" by (cases r1)
      show ?thesis
      proof (cases a)
        case (Inl e)
        from Vdom_element.prems old Some r1 Inl have "res = (Inl e, s1)" by simp
        moreover from old r1' r1 Inl
        have "vdom_reconcile (Suc f) h co ?v old s = Some (Inl e, s1)" by simp
        ultimately show ?thesis by simp
      next
        case (Inr u)
        from old Some r1 Inr
        have L: "vdom_reconcile f h co ?v old s =
            (case tooltip of None \<Rightarrow> Some (Inr (), s1)
               | Some t \<Rightarrow> (case otooltip of None \<Rightarrow> Some (Inr (), s1)
                   | Some ot \<Rightarrow> vdom_reconcile f h co t ot s1))"
          by simp
        from old r1' r1 Inr
        have R: "vdom_reconcile (Suc f) h co ?v old s =
            (case tooltip of None \<Rightarrow> Some (Inr (), s1)
               | Some t \<Rightarrow> (case otooltip of None \<Rightarrow> Some (Inr (), s1)
                   | Some ot \<Rightarrow> vdom_reconcile (Suc f) h co t ot s1))"
          by simp
        show ?thesis
        proof (cases "\<exists>t ot. tooltip = Some t \<and> otooltip = Some ot")
          case False
          then have "vdom_reconcile f h co ?v old s = Some (Inr (), s1)"
            and "vdom_reconcile (Suc f) h co ?v old s = Some (Inr (), s1)"
            unfolding L R by (cases tooltip; cases otooltip; simp)+
          with Vdom_element.prems show ?thesis by simp
        next
          case True
          then obtain t ot where t: "tooltip = Some t" "otooltip = Some ot" by blast
          from Vdom_element.prems L t
          have "vdom_reconcile f h co t ot s1 = Some res" by simp
          from Vdom_element.IH(2) [of t, OF _ this] t
          have "vdom_reconcile (Suc f) h co t ot s1 = Some res" by simp
          with R t show ?thesis by simp
        qed
      qed
    qed
  qed
next
  case (Vdom_string str)
  then show ?case by simp
next
  case (Vdom_component i)
  obtain cn w where s: "s = (cn, w)" by (cases s)
  show ?case
  proof (cases "i < length cn")
    case False
    with Vdom_component s show ?thesis by simp
  next
    case True
    define ci_old where "ci_old = (case old of Vdom_component j \<Rightarrow> Some (co ! j) | _ \<Rightarrow> None)"
    show ?thesis
    proof (cases "\<exists>j. old = Vdom_component j \<and> \<not> j < length co")
      case True
      with \<open>i < length cn\<close> Vdom_component s show ?thesis by auto
    next
      case False
      with \<open>i < length cn\<close> s
      have L: "vdom_reconcile f h co (Vdom_component i) old s =
          (case component_reconcile f h (cn ! i) ci_old w of
             None \<Rightarrow> None | Some (r, c, w1) \<Rightarrow> Some (r, cn[i := c], w1))"
        and R: "vdom_reconcile (Suc f) h co (Vdom_component i) old s =
          (case component_reconcile (Suc f) h (cn ! i) ci_old w of
             None \<Rightarrow> None | Some (r, c, w1) \<Rightarrow> Some (r, cn[i := c], w1))"
        by (cases old; auto simp: ci_old_def simp del: component_reconcile.simps)+
      show ?thesis
      proof (cases "component_reconcile f h (cn ! i) ci_old w")
        case None
        with L Vdom_component show ?thesis by simp
      next
        case (Some y)
        from component_reconcile_mono [OF assms Some]
        have "component_reconcile (Suc f) h (cn ! i) ci_old w = Some y" .
        with L R Some Vdom_component show ?thesis by simp
      qed
    qed
  qed
qed

lemma render_mono_all: "render_mono f"
proof (induction f)
  case 0
  show ?case by (simp add: render_mono_def)
next
  case (Suc f)
  show ?case
    unfolding render_mono_def
  proof (intro allI impI)
    fix h c w res
    assume run: "render (Suc f) h c w = Some res"
    show "render (Suc (Suc f)) h c w = Some res"
    proof (cases "m_inner_props c")
      case None
      with run show ?thesis by simp
    next
      case (Some ip)
      show ?thesis
      proof (cases "invoke_view h (m_view c) ip")
        case (Inl t)
        with Some run show ?thesis by simp
      next
        case (Inr view)
        obtain rr st where rl: "render_html_list h (m_id c # m_route c) view
            \<lparr>components = [], handlers = (\<lambda>k. None), rworld = w\<rparr> = (rr, st)"
          by (cases "render_html_list h (m_id c # m_route c) view
            \<lparr>components = [], handlers = (\<lambda>k. None), rworld = w\<rparr>")
        show ?thesis
        proof (cases rr)
          case (Inl e)
          with Some Inr rl run show ?thesis by simp
        next
          case elems: (Inr elements)
          show ?thesis
          proof (cases "reconcile_children_with (vdom_reconcile f h (m_children c)) elements
              (m_render c) (components st, rworld st)")
            case None
            with Some Inr rl elems run show ?thesis by simp
          next
            case r1: (Some r1)
            have "reconcile_children_with (vdom_reconcile (Suc f) h (m_children c)) elements
              (m_render c) (components st, rworld st) = Some r1"
              by (rule reconcile_children_with_mono [OF _ r1])
                (rule vdom_reconcile_mono [OF Suc.IH])
            with Some Inr rl elems run r1 show ?thesis
              by (simp add: render.simps(2) [of f] render.simps(2) [of "Suc f"])
          qed
        qed
      qed
    qed
  qed
qed

lemma render_fuel:
  "render (Suc (Suc f)) h c w = render (Suc (Suc 0)) h c w"
proof (induction f)
  case 0
  show ?case by simp
next
  case (Suc f)
  from render_returns [of f h c w] obtain res where "render (Suc (Suc f)) h c w = Some res"
    by blast
  with render_mono_all [of "Suc (Suc f)"] Suc show ?case
    by (metis render_mono_def)
qed

lemma set_hooks_same: "set_hooks (m_hooks c) c = c"
  by (cases c) (simp add: set_hooks_def)

lemma component_reconcile_rerender:
  assumes "m_component_hash old = m_component_hash c"
    and "m_props c \<noteq> m_props old"
    and "length (m_hooks c) \<le> length (m_hooks old)"
  shows "component_reconcile fuel h c (Some old) w
    = render fuel h (set_inner_props (Some (m_props c)) c) w"
  using assms by (simp add: reconcile_hooks_True set_hooks_same del: render.simps)

lemma component_reconcile_fresh:
  assumes "ci_old = None \<or> (\<exists>old. ci_old = Some old \<and> m_component_hash old \<noteq> m_component_hash c)"
  shows "component_reconcile fuel h c ci_old w
    = render fuel h (set_inner_props (Some (m_props c)) c) w"
  using assms by (auto simp: initialize_props simp del: render.simps)

lemma component_reconcile_m_id:
  assumes "component_reconcile fuel h c (Some old) w = Some (res, c', w')"
  shows "m_id c' = m_id c
    \<or> (m_component_hash old = m_component_hash c \<and> m_props c = m_props old
        \<and> m_id c' = m_id old \<and> res = Inr ())"
proof (cases "m_component_hash old = m_component_hash c")
  case False
  with assms have "render fuel h (initialize c) w = Some (res, c', w')"
    by (simp del: render.simps)
  from render_m_id [OF this] show ?thesis by (simp add: initialize_props set_inner_props_def)
next
  case True
  obtain r hooks where
    rh: "reconcile_hooks (m_props c \<noteq> m_props old) (m_props c) (m_hooks c) (m_hooks old)
      = (r, hooks)"
    by (cases "reconcile_hooks (m_props c \<noteq> m_props old) (m_props c) (m_hooks c)
      (m_hooks old)")
  show ?thesis
  proof (cases r)
    case (Inl e)
    with assms True rh have "c' = set_hooks hooks c" by (simp del: render.simps)
    then show ?thesis by (simp add: set_hooks_def)
  next
    case (Inr sp)
    obtain su p where sp: "sp = (su, p)" by (cases sp)
    show ?thesis
    proof (cases su)
      case True
      with assms \<open>m_component_hash old = m_component_hash c\<close> rh Inr sp
      have "render fuel h (set_inner_props (Some p) (set_hooks hooks c)) w = Some (res, c', w')"
        by (simp del: render.simps)
      from render_m_id [OF this] show ?thesis by (simp add: set_inner_props_def set_hooks_def)
    next
      case False
      have eq: "m_props c = m_props old"
      proof (rule ccontr)
        assume ne: "m_props c \<noteq> m_props old"
        show False
        proof (cases "length (m_hooks c) \<le> length (m_hooks old)")
          case True
          from reconcile_hooks_True [OF this, of "m_props c"] ne rh Inr sp False
          show False by simp
        next
          case short: False
          then have "length (m_hooks old) < length (m_hooks c)" by simp
          from reconcile_hooks_short [OF this, of "m_props c \<noteq> m_props old" "m_props c"]
            rh Inr
          show False by simp
        qed
      qed
      from assms True rh Inr sp False have "m_id c' = m_id old" and "res = Inr ()"
        by (auto simp del: render.simps)
      with True eq show ?thesis by simp
    qed
  qed
qed

text \<open>
  Claim C9. The only host closures that \<^verbatim>\<open>render\<close> invokes are views: the view of the
  instance, and the views of the child instances that the reconciliation of the new
  nodes renders. The exception of a trapping view, like every other exception, passes
  each frame between the invocation and the caller of \<^verbatim>\<open>render\<close> as it is: the
  reconciliation of a component instance, of its node, of an element around it, the
  loop over the siblings, and \<^verbatim>\<open>render\<close> itself, whose three assignments to
  \<^verbatim>\<open>m_handlers\<close>, \<^verbatim>\<open>m_children\<close> and \<^verbatim>\<open>m_render\<close> come after every call that can
  throw. So a \<^verbatim>\<open>render\<close> that ends with an exception leaves the instance as it was
  before the call; in particular the trap of the view of a child that is rendered first
  among the new nodes ends the \<^verbatim>\<open>render\<close> of the parent with that exception. And
  \<^verbatim>\<open>render\<close> does end: a bound of two on the nesting is enough for every instance.
\<close>

theorem render_failure_keeps_prior_view:
  "(render fuel h c w = Some (Inl e, c', w') \<longrightarrow>
      c' = c \<and> m_render c' = m_render c \<and> m_children c' = m_children c
      \<and> m_handlers c' = m_handlers c)
   \<and> (m_inner_props c = Some ip \<and> invoke_view h (m_view c) ip = Inl t \<longrightarrow>
      render (Suc fuel) h c w = Some (Inl (Host_failure t), c, w))
   \<and> (m_inner_props c = Some ip \<and> invoke_view h (m_view c) ip = Inr view
      \<and> render_html_list h (m_id c # m_route c) view
           \<lparr>components = [], handlers = (\<lambda>k. None), rworld = w\<rparr> = (Inl e, st) \<longrightarrow>
      render (Suc fuel) h c w = Some (Inl e, c, rworld st))
   \<and> (m_inner_props c = Some ip \<and> invoke_view h (m_view c) ip = Inr view
      \<and> render_html_list h (m_id c # m_route c) view
           \<lparr>components = [], handlers = (\<lambda>k. None), rworld = w\<rparr> = (Inr elements, st)
      \<and> reconcile_children_with (vdom_reconcile fuel h (m_children c)) elements (m_render c)
           (components st, rworld st) = Some (Inl e, s1) \<longrightarrow>
      render (Suc fuel) h c w = Some (Inl e, c, snd s1))
   \<and> (key n = Inr None \<and> rc n ov s = Some (Inl e, s') \<longrightarrow>
      reconcile_children_with rc (n # ns) (ov # os) s = Some (Inl e, s'))
   \<and> (key n = Inr None \<and> rc n ov s = Some (Inr u, s') \<longrightarrow>
      reconcile_children_with rc (n # ns) (ov # os) s = reconcile_children_with rc ns os s')
   \<and> (key n = Inr (Some k) \<and> find_old (Some k) olds = Inr (Some j)
      \<and> rc n (olds ! j) s = Some (Inl e, s') \<longrightarrow>
      reconcile_children_with rc (n # ns) olds s = Some (Inl e, s'))
   \<and> (key n = Inr (Some k) \<and> find_old (Some k) olds = Inr (Some j)
      \<and> rc n (olds ! j) s = Some (Inr u, s') \<longrightarrow>
      reconcile_children_with rc (n # ns) olds s
        = reconcile_children_with rc ns (erase olds j) s')
   \<and> (reconcile_children_with (vdom_reconcile fuel h co) children ochildren (cn, w)
        = Some (Inl e, s1) \<longrightarrow>
      vdom_reconcile fuel h co (Vdom_element tag attrs events children tooltip)
        (Vdom_element tag oattrs oevents ochildren otooltip) (cn, w) = Some (Inl e, s1))
   \<and> (reconcile_children_with (vdom_reconcile fuel h co) children ochildren (cn, w)
        = Some (Inr u, s1)
      \<and> vdom_reconcile fuel h co tt ott s1 = Some (Inl e, s2) \<longrightarrow>
      vdom_reconcile fuel h co (Vdom_element tag attrs events children (Some tt))
        (Vdom_element tag oattrs oevents ochildren (Some ott)) (cn, w) = Some (Inl e, s2))
   \<and> (i < length cn \<and> j < length co
      \<and> component_reconcile fuel h (cn ! i) (Some (co ! j)) w = Some (Inl e, c1, w1) \<longrightarrow>
      vdom_reconcile fuel h co (Vdom_component i) (Vdom_component j) (cn, w)
        = Some (Inl e, cn[i := c1], w1))
   \<and> (i < length cn \<and> (\<forall>j. old \<noteq> Vdom_component j)
      \<and> component_reconcile fuel h (cn ! i) None w = Some (Inl e, c1, w1) \<longrightarrow>
      vdom_reconcile fuel h co (Vdom_component i) old (cn, w)
        = Some (Inl e, cn[i := c1], w1))
   \<and> ((ci_old = None
        \<or> (\<exists>prior. ci_old = Some prior \<and> m_component_hash prior \<noteq> m_component_hash c)
        \<or> (\<exists>prior. ci_old = Some prior \<and> m_props c \<noteq> m_props prior
              \<and> length (m_hooks c) \<le> length (m_hooks prior)))
      \<and> invoke_view h (m_view c) (m_props c) = Inl t \<longrightarrow>
      component_reconcile (Suc fuel) h c ci_old w
        = Some (Inl (Host_failure t), set_inner_props (Some (m_props c)) c, w))
   \<and> (m_inner_props c = Some ip \<and> invoke_view h (m_view c) ip = Inr view
      \<and> render_html_list h (m_id c # m_route c) view
           \<lparr>components = [], handlers = (\<lambda>k. None), rworld = w\<rparr>
         = (Inr (Vdom_component i # elements), st)
      \<and> m_render c = ov # os \<and> (\<forall>j. ov \<noteq> Vdom_component j) \<and> i < length (components st)
      \<and> invoke_view h (m_view (components st ! i)) (m_props (components st ! i)) = Inl t \<longrightarrow>
      render (Suc (Suc fuel)) h c w = Some (Inl (Host_failure t), c, rworld st))
   \<and> (\<exists>res. render (Suc (Suc fuel)) h c w = Some res)"
proof -
  have kept: "render fuel h c w = Some (Inl e, c', w') \<longrightarrow>
      c' = c \<and> m_render c' = m_render c \<and> m_children c' = m_children c
      \<and> m_handlers c' = m_handlers c"
  proof
    assume "render fuel h c w = Some (Inl e, c', w')"
    then have "c' = c" by (rule render_failure)
    then show "c' = c \<and> m_render c' = m_render c \<and> m_children c' = m_children c
      \<and> m_handlers c' = m_handlers c"
      by simp
  qed
  have own: "m_inner_props c = Some ip \<and> invoke_view h (m_view c) ip = Inl t \<longrightarrow>
      render (Suc fuel) h c w = Some (Inl (Host_failure t), c, w)"
    by simp
  have html: "m_inner_props c = Some ip \<and> invoke_view h (m_view c) ip = Inr view
      \<and> render_html_list h (m_id c # m_route c) view
           \<lparr>components = [], handlers = (\<lambda>k. None), rworld = w\<rparr> = (Inl e, st) \<longrightarrow>
      render (Suc fuel) h c w = Some (Inl e, c, rworld st)"
    by simp
  have children: "m_inner_props c = Some ip \<and> invoke_view h (m_view c) ip = Inr view
      \<and> render_html_list h (m_id c # m_route c) view
           \<lparr>components = [], handlers = (\<lambda>k. None), rworld = w\<rparr> = (Inr elements, st)
      \<and> reconcile_children_with (vdom_reconcile fuel h (m_children c)) elements (m_render c)
           (components st, rworld st) = Some (Inl e, s1) \<longrightarrow>
      render (Suc fuel) h c w = Some (Inl e, c, snd s1)"
    by simp
  have sib1: "key n = Inr None \<and> rc n ov s = Some (Inl e, s') \<longrightarrow>
      reconcile_children_with rc (n # ns) (ov # os) s = Some (Inl e, s')"
    by simp
  have sib2: "key n = Inr None \<and> rc n ov s = Some (Inr u, s') \<longrightarrow>
      reconcile_children_with rc (n # ns) (ov # os) s = reconcile_children_with rc ns os s'"
    by simp
  have sib3: "key n = Inr (Some k) \<and> find_old (Some k) olds = Inr (Some j)
      \<and> rc n (olds ! j) s = Some (Inl e, s') \<longrightarrow>
      reconcile_children_with rc (n # ns) olds s = Some (Inl e, s')"
    by simp
  have sib4: "key n = Inr (Some k) \<and> find_old (Some k) olds = Inr (Some j)
      \<and> rc n (olds ! j) s = Some (Inr u, s') \<longrightarrow>
      reconcile_children_with rc (n # ns) olds s
        = reconcile_children_with rc ns (erase olds j) s'"
    by simp
  have elem: "reconcile_children_with (vdom_reconcile fuel h co) children ochildren (cn, w)
        = Some (Inl e, s1) \<longrightarrow>
      vdom_reconcile fuel h co (Vdom_element tag attrs events children tooltip)
        (Vdom_element tag oattrs oevents ochildren otooltip) (cn, w) = Some (Inl e, s1)"
    by simp
  have tip: "reconcile_children_with (vdom_reconcile fuel h co) children ochildren (cn, w)
        = Some (Inr u, s1)
      \<and> vdom_reconcile fuel h co tt ott s1 = Some (Inl e, s2) \<longrightarrow>
      vdom_reconcile fuel h co (Vdom_element tag attrs events children (Some tt))
        (Vdom_element tag oattrs oevents ochildren (Some ott)) (cn, w) = Some (Inl e, s2)"
    by simp
  have node1: "i < length cn \<and> j < length co
      \<and> component_reconcile fuel h (cn ! i) (Some (co ! j)) w = Some (Inl e, c1, w1) \<longrightarrow>
      vdom_reconcile fuel h co (Vdom_component i) (Vdom_component j) (cn, w)
        = Some (Inl e, cn[i := c1], w1)"
    by (simp del: component_reconcile.simps)
  have node2: "i < length cn \<and> (\<forall>j. old \<noteq> Vdom_component j)
      \<and> component_reconcile fuel h (cn ! i) None w = Some (Inl e, c1, w1) \<longrightarrow>
      vdom_reconcile fuel h co (Vdom_component i) old (cn, w)
        = Some (Inl e, cn[i := c1], w1)"
    by (cases old) (simp_all del: component_reconcile.simps)
  have child: "(ci_old = None
        \<or> (\<exists>prior. ci_old = Some prior \<and> m_component_hash prior \<noteq> m_component_hash c)
        \<or> (\<exists>prior. ci_old = Some prior \<and> m_props c \<noteq> m_props prior
              \<and> length (m_hooks c) \<le> length (m_hooks prior)))
      \<and> invoke_view h (m_view c) (m_props c) = Inl t \<longrightarrow>
      component_reconcile (Suc fuel) h c ci_old w
        = Some (Inl (Host_failure t), set_inner_props (Some (m_props c)) c, w)"
  proof
    assume a: "(ci_old = None
        \<or> (\<exists>prior. ci_old = Some prior \<and> m_component_hash prior \<noteq> m_component_hash c)
        \<or> (\<exists>prior. ci_old = Some prior \<and> m_props c \<noteq> m_props prior
              \<and> length (m_hooks c) \<le> length (m_hooks prior)))
      \<and> invoke_view h (m_view c) (m_props c) = Inl t"
    then have trap: "invoke_view h (m_view c) (m_props c) = Inl t" by simp
    have r: "render (Suc fuel) h (set_inner_props (Some (m_props c)) c) w
        = Some (Inl (Host_failure t), set_inner_props (Some (m_props c)) c, w)"
      using trap by (simp add: set_inner_props_def)
    have "component_reconcile (Suc fuel) h c ci_old w
        = render (Suc fuel) h (set_inner_props (Some (m_props c)) c) w"
    proof (cases "ci_old = None
        \<or> (\<exists>prior. ci_old = Some prior \<and> m_component_hash prior \<noteq> m_component_hash c)")
      case True
      then show ?thesis by (rule component_reconcile_fresh)
    next
      case False
      with a obtain prior where p: "ci_old = Some prior" "m_props c \<noteq> m_props prior"
        "length (m_hooks c) \<le> length (m_hooks prior)"
        by blast
      with False have "m_component_hash prior = m_component_hash c" by simp
      from component_reconcile_rerender [OF this p(2,3)] p(1) show ?thesis by simp
    qed
    with r show "component_reconcile (Suc fuel) h c ci_old w
        = Some (Inl (Host_failure t), set_inner_props (Some (m_props c)) c, w)"
      by simp
  qed
  have deep: "m_inner_props c = Some ip \<and> invoke_view h (m_view c) ip = Inr view
      \<and> render_html_list h (m_id c # m_route c) view
           \<lparr>components = [], handlers = (\<lambda>k. None), rworld = w\<rparr>
         = (Inr (Vdom_component i # elements), st)
      \<and> m_render c = ov # os \<and> (\<forall>j. ov \<noteq> Vdom_component j) \<and> i < length (components st)
      \<and> invoke_view h (m_view (components st ! i)) (m_props (components st ! i)) = Inl t \<longrightarrow>
      render (Suc (Suc fuel)) h c w = Some (Inl (Host_failure t), c, rworld st)"
  proof (intro impI, elim conjE)
    let ?cn = "components st"
    let ?ci = "?cn ! i"
    let ?ci' = "set_inner_props (Some (m_props ?ci)) ?ci"
    assume ip: "m_inner_props c = Some ip"
      and view: "invoke_view h (m_view c) ip = Inr view"
      and list: "render_html_list h (m_id c # m_route c) view
           \<lparr>components = [], handlers = (\<lambda>k. None), rworld = w\<rparr>
         = (Inr (Vdom_component i # elements), st)"
      and prior: "m_render c = ov # os"
      and ov: "\<forall>j. ov \<noteq> Vdom_component j"
      and i: "i < length ?cn"
      and trap: "invoke_view h (m_view ?ci) (m_props ?ci) = Inl t"
    have "render (Suc fuel) h ?ci' (rworld st) = Some (Inl (Host_failure t), ?ci', rworld st)"
      using trap by (simp add: set_inner_props_def)
    with component_reconcile_fresh [of None ?ci "Suc fuel" h "rworld st"]
    have "component_reconcile (Suc fuel) h ?ci None (rworld st)
        = Some (Inl (Host_failure t), ?ci', rworld st)"
      by (simp del: render.simps component_reconcile.simps)
    with i ov have "vdom_reconcile (Suc fuel) h (m_children c) (Vdom_component i) ov
        (?cn, rworld st) = Some (Inl (Host_failure t), ?cn[i := ?ci'], rworld st)"
      by (cases ov) (simp_all del: component_reconcile.simps)
    then have "reconcile_children_with (vdom_reconcile (Suc fuel) h (m_children c))
        (Vdom_component i # elements) (ov # os) (?cn, rworld st)
        = Some (Inl (Host_failure t), ?cn[i := ?ci'], rworld st)"
      by (simp del: vdom_reconcile.simps)
    with ip view list prior
    show "render (Suc (Suc fuel)) h c w = Some (Inl (Host_failure t), c, rworld st)"
      by (simp del: vdom_reconcile.simps reconcile_children_with.simps)
  qed
  have returns: "\<exists>res. render (Suc (Suc fuel)) h c w = Some res" by (rule render_returns)
  from kept own html children sib1 sib2 sib3 sib4 elem tip node1 node2 child deep returns
  show ?thesis by (intro conjI) assumption+
qed

text \<open>
  On the example: the parent (id 1) has rendered a text before and has a handler; its
  view now shows a child component whose view traps. The new child (id 3) is reconciled
  against the text node, so it is initialized and rendered, its view traps with 7, and
  the parent's \<^verbatim>\<open>render\<close> ends with that exception: the parent is as it was, while the
  counter of instance ids has moved on.
\<close>

theorem render_failure_keeps_prior_view_witness:
  "component_reconcile 1 example_host
       (Component_instance 3 [1] 0 (VSimple 1) None [] (VClosure 11) [] [] (\<lambda>k. None) False 0)
       None (example_world\<lparr>g_fresh_component_instance_id := 4\<rparr>) =
     Some (Inl (Host_failure 7),
       Component_instance 3 [1] 0 (VSimple 1) (Some (VSimple 1)) [] (VClosure 11) [] []
         (\<lambda>k. None) False 0,
       example_world\<lparr>g_fresh_component_instance_id := 4\<rparr>)
   \<and> render 2 example_host example_parent example_world =
     Some (Inl (Host_failure 7), example_parent,
           example_world\<lparr>g_fresh_component_instance_id := 4\<rparr>)
   \<and> m_render example_parent = [Vdom_string ''x'']
   \<and> m_children example_parent = []
   \<and> m_handlers example_parent 20 = Some (VClosure 3)"
proof -
  let ?child = "Component_instance 3 [1] 0 (VSimple 1) None [] (VClosure 11) [] []
    (\<lambda>k. None) False 0"
  let ?child' = "Component_instance 3 [1] 0 (VSimple 1) (Some (VSimple 1)) [] (VClosure 11) [] []
    (\<lambda>k. None) False 0"
  let ?w = "example_world\<lparr>g_fresh_component_instance_id := 4\<rparr>"
  let ?st = "\<lparr>components = [?child], handlers = (\<lambda>k. None), rworld = ?w\<rparr>"
  have trap: "invoke_view example_host (m_view ?child) (m_props ?child) = Inl 7"
    by (simp add: example_host_def)
  from render_failure_keeps_prior_view
    [where fuel = 0 and h = example_host and c = ?child and ci_old = None and w = ?w
      and t = 7, THEN conjunct2, THEN conjunct2, THEN conjunct2, THEN conjunct2, THEN conjunct2, THEN conjunct2, THEN conjunct2, THEN conjunct2, THEN conjunct2, THEN conjunct2, THEN conjunct2, THEN conjunct2, THEN conjunct1] trap
  have child: "component_reconcile 1 example_host ?child None ?w =
     Some (Inl (Host_failure 7), ?child', ?w)"
    by (simp add: set_inner_props_def del: component_reconcile.simps)
  from render_failure_keeps_prior_view
    [where fuel = 1 and h = example_host and cn = "[?child]" and i = 0
      and old = "Vdom_string ''x''" and w = ?w and e = "Host_failure 7" and ?c1.0 = ?child'
      and ?w1.0 = ?w and co = "[]", THEN conjunct2, THEN conjunct2, THEN conjunct2, THEN conjunct2, THEN conjunct2, THEN conjunct2, THEN conjunct2, THEN conjunct2, THEN conjunct2, THEN conjunct2, THEN conjunct2, THEN conjunct1] child
  have node: "vdom_reconcile 1 example_host [] (Vdom_component 0) (Vdom_string ''x'')
      ([?child], ?w) = Some (Inl (Host_failure 7), [?child'], ?w)"
    by (simp del: component_reconcile.simps vdom_reconcile.simps)
  from render_failure_keeps_prior_view
    [where n = "Vdom_component 0" and rc = "vdom_reconcile 1 example_host []"
      and ov = "Vdom_string ''x''" and s = "([?child], ?w)" and e = "Host_failure 7"
      and s' = "([?child'], ?w)" and ns = "[]" and os = "[]", THEN conjunct2, THEN conjunct2, THEN conjunct2, THEN conjunct2, THEN conjunct1] node
  have siblings: "reconcile_children_with (vdom_reconcile 1 example_host [])
      [Vdom_component 0] [Vdom_string ''x''] ([?child], ?w)
      = Some (Inl (Host_failure 7), [?child'], ?w)"
    by (simp del: vdom_reconcile.simps reconcile_children_with.simps)
  have ip: "m_inner_props example_parent = Some (VSimple 0)"
    and view: "invoke_view example_host (m_view example_parent) (VSimple 0)
      = Inr (example_html 14)"
    by (simp_all add: example_parent_def example_host_def)
  have list: "render_html_list example_host (m_id example_parent # m_route example_parent)
      (example_html 14) \<lparr>components = [], handlers = (\<lambda>k. None), rworld = example_world\<rparr>
      = (Inr [Vdom_component 0], ?st)"
    by (simp add: example_parent_def example_html_def example_host_def example_world_def
        new_component_instance_def)
  have rec: "reconcile_children_with (vdom_reconcile 1 example_host (m_children example_parent))
      [Vdom_component 0] (m_render example_parent) (components ?st, rworld ?st)
      = Some (Inl (Host_failure 7), [?child'], ?w)"
    using siblings
    by (simp add: example_parent_def del: vdom_reconcile.simps reconcile_children_with.simps)
  from render_failure_keeps_prior_view
    [where fuel = 1 and h = example_host and c = example_parent and w = example_world
      and ip = "VSimple 0" and view = "example_html 14" and elements = "[Vdom_component 0]"
      and st = ?st and e = "Host_failure 7" and ?s1.0 = "([?child'], ?w)", THEN conjunct2, THEN conjunct2, THEN conjunct2, THEN conjunct1]
    ip view list rec
  have run: "render 2 example_host example_parent example_world =
     Some (Inl (Host_failure 7), example_parent, ?w)"
    by (simp del: render.simps add: numeral_2_eq_2)
  from child run show ?thesis
    by (simp add: example_parent_def del: render.simps component_reconcile.simps)
qed

text \<open>
  Claim C10. The hooks in \<^verbatim>\<open>m_hooks\<close> answer true in \<^verbatim>\<open>reconcile\<close>, so against a prior
  instance with the same hash \<^verbatim>\<open>should_update\<close> is true after the loop exactly when the
  props are not handle-equal. On that path the instance renders again and keeps the id
  that its constructor took from the counter; the id of the prior instance is taken over
  only on the other path, with equal props. The constructor takes the ids from the
  counter one after the other, so the id of an instance built after the prior one (and
  before the counter of 32 bits has come around) is not the prior id, and an event whose
  route names the prior id is answered with \<^verbatim>\<open>invalid_handler\<close>.
\<close>

theorem reconcile_rerender_keeps_fresh_id:
  "(m_component_hash old = m_component_hash c \<and> m_props c \<noteq> m_props old
      \<and> length (m_hooks c) \<le> length (m_hooks old) \<longrightarrow>
      component_reconcile fuel h c (Some old) w
        = render fuel h (set_inner_props (Some (m_props c)) c) w)
   \<and> (m_props c \<noteq> m_props old
      \<and> component_reconcile fuel h c (Some old) w = Some (res, c', w') \<longrightarrow>
      m_id c' = m_id c)
   \<and> (m_component_hash old = m_component_hash c \<and> m_props c = m_props old
      \<and> length (m_hooks c) \<le> length (m_hooks old) \<longrightarrow>
      component_reconcile fuel h c (Some old) w =
        Some (Inr (),
          Component_instance (m_id old) (m_route c) (m_component_hash c) (m_props c)
            (m_inner_props old) (take (length (m_hooks c)) (m_hooks old)) (m_view c)
            (m_render old) (m_children old) (m_handlers c) True (m_reconcile_count old + 1),
          w))
   \<and> (component_reconcile fuel h c (Some old) w = Some (res, c', w') \<and> m_id c' \<noteq> m_id c \<longrightarrow>
      m_component_hash old = m_component_hash c \<and> m_props c = m_props old
      \<and> m_id c' = m_id old \<and> res = Inr ())
   \<and> (new_component_instance h cmp0 p0 r0 w0 = (old0, w0') \<and> m_id old = m_id old0
      \<and> g_fresh_component_instance_id w1 = g_fresh_component_instance_id w0' + of_nat n
      \<and> n < 2 ^ 32 - 1
      \<and> new_component_instance h cmp p r w1 = (c, w) \<and> m_props old \<noteq> p
      \<and> component_reconcile fuel h c (Some old) w = Some (res, c', w') \<longrightarrow>
      m_id c' = g_fresh_component_instance_id w1 \<and> m_id c' \<noteq> m_id old
      \<and> find_child [c'] (m_id old) = None
      \<and> (m_children parent = [c'] \<longrightarrow>
           handle_event h parent (m_id old # route) handler_id event_args
             = Some (Inl Invalid_handler, parent)))
   \<and> (m_render c = [] \<longrightarrow>
      (\<exists>res. component_reconcile (Suc fuel) h c (Some old) w = Some res))"
proof -
  have rerender: "m_component_hash old = m_component_hash c \<and> m_props c \<noteq> m_props old
      \<and> length (m_hooks c) \<le> length (m_hooks old) \<longrightarrow>
      component_reconcile fuel h c (Some old) w
        = render fuel h (set_inner_props (Some (m_props c)) c) w"
    using component_reconcile_rerender [of old c fuel h w] by blast
  have own_id: "m_props c \<noteq> m_props old
      \<and> component_reconcile fuel h c (Some old) w = Some (res, c', w') \<longrightarrow>
      m_id c' = m_id c"
    using component_reconcile_m_id [of fuel h c old w res c' w'] by blast
  have adopt: "m_component_hash old = m_component_hash c \<and> m_props c = m_props old
      \<and> length (m_hooks c) \<le> length (m_hooks old) \<longrightarrow>
      component_reconcile fuel h c (Some old) w =
        Some (Inr (),
          Component_instance (m_id old) (m_route c) (m_component_hash c) (m_props c)
            (m_inner_props old) (take (length (m_hooks c)) (m_hooks old)) (m_view c)
            (m_render old) (m_children old) (m_handlers c) True (m_reconcile_count old + 1),
          w)"
    by (simp add: reconcile_hooks_False)
  have only: "component_reconcile fuel h c (Some old) w = Some (res, c', w')
      \<and> m_id c' \<noteq> m_id c \<longrightarrow>
      m_component_hash old = m_component_hash c \<and> m_props c = m_props old
      \<and> m_id c' = m_id old \<and> res = Inr ()"
    using component_reconcile_m_id [of fuel h c old w res c' w'] by blast
  have fresh: "new_component_instance h cmp0 p0 r0 w0 = (old0, w0') \<and> m_id old = m_id old0
      \<and> g_fresh_component_instance_id w1 = g_fresh_component_instance_id w0' + of_nat n
      \<and> n < 2 ^ 32 - 1
      \<and> new_component_instance h cmp p r w1 = (c, w) \<and> m_props old \<noteq> p
      \<and> component_reconcile fuel h c (Some old) w = Some (res, c', w') \<longrightarrow>
      m_id c' = g_fresh_component_instance_id w1 \<and> m_id c' \<noteq> m_id old
      \<and> find_child [c'] (m_id old) = None
      \<and> (m_children parent = [c'] \<longrightarrow>
           handle_event h parent (m_id old # route) handler_id event_args
             = Some (Inl Invalid_handler, parent))"
  proof
    assume a: "new_component_instance h cmp0 p0 r0 w0 = (old0, w0') \<and> m_id old = m_id old0
      \<and> g_fresh_component_instance_id w1 = g_fresh_component_instance_id w0' + of_nat n
      \<and> n < 2 ^ 32 - 1
      \<and> new_component_instance h cmp p r w1 = (c, w) \<and> m_props old \<noteq> p
      \<and> component_reconcile fuel h c (Some old) w = Some (res, c', w')"
    then have old_id: "m_id old = g_fresh_component_instance_id w0"
      and next_id: "g_fresh_component_instance_id w0' = g_fresh_component_instance_id w0 + 1"
      and new_id: "m_id c = g_fresh_component_instance_id w1"
      and props: "m_props c = p"
      by (auto simp: new_component_instance_def split: prod.splits)
    from a have later: "g_fresh_component_instance_id w1
        = g_fresh_component_instance_id w0' + of_nat n"
      and n: "n < 2 ^ 32 - 1"
      and ne: "m_props old \<noteq> p"
      and run: "component_reconcile fuel h c (Some old) w = Some (res, c', w')"
      by simp_all
    from ne props have "m_props c \<noteq> m_props old" by simp
    with component_reconcile_m_id [OF run] have id: "m_id c' = m_id c" by blast
    have "\<not> 2 ^ LENGTH(32) dvd Suc n"
    proof
      assume "2 ^ LENGTH(32) dvd Suc n"
      then have "2 ^ LENGTH(32) \<le> Suc n" by (rule dvd_imp_le) simp
      with n show False by simp
    qed
    then have "(of_nat (Suc n) :: 32 word) \<noteq> 0"
      by (simp only: word_of_nat_eq_0_iff not_False_eq_True)
    moreover have "m_id c = m_id old + of_nat (Suc n)"
      using new_id later next_id old_id by simp
    ultimately have diff: "m_id c \<noteq> m_id old" by simp
    from id diff new_id show "m_id c' = g_fresh_component_instance_id w1 \<and> m_id c' \<noteq> m_id old
      \<and> find_child [c'] (m_id old) = None
      \<and> (m_children parent = [c'] \<longrightarrow>
           handle_event h parent (m_id old # route) handler_id event_args
             = Some (Inl Invalid_handler, parent))"
      by simp
  qed
  have returns: "m_render c = [] \<longrightarrow>
      (\<exists>res. component_reconcile (Suc fuel) h c (Some old) w = Some res)"
    using component_reconcile_fresh_returns [of c fuel h "Some old" w] by blast
  from rerender own_id adopt only fresh returns
  show ?thesis by (intro conjI) assumption+
qed

text \<open>
  On the example: the prior instance was built with the id 3 and has rendered; three
  instances later the same component is built again with the props 1 instead of 0 and
  gets the id 7. Its reconcile against the prior instance renders again, it keeps the
  id 7, and an event sent to the id 3 below the parent is answered with
  \<^verbatim>\<open>invalid_handler\<close>.
\<close>

theorem reconcile_rerender_keeps_fresh_id_witness:
  "new_component_instance example_host (Pure (VClosure 10)) (VSimple 0) [1] example_world =
     (Component_instance 3 [1] 0 (VSimple 0) None [] (VClosure 10) [] [] (\<lambda>k. None) False 0,
      example_world\<lparr>g_fresh_component_instance_id := 4\<rparr>)
   \<and> new_component_instance example_host (Pure (VClosure 10)) (VSimple 1) [1]
       (example_world\<lparr>g_fresh_component_instance_id := 7\<rparr>) =
     (example_new [], example_world\<lparr>g_fresh_component_instance_id := 8\<rparr>)
   \<and> component_reconcile 1 example_host (example_new []) (Some (example_old []))
       (example_world\<lparr>g_fresh_component_instance_id := 8\<rparr>) =
     Some (Inr (),
       Component_instance 7 [1] 0 (VSimple 1) (Some (VSimple 1)) [] (VClosure 10)
         [Vdom_string ''x''] [] (\<lambda>k. None) True 0,
       example_world\<lparr>g_fresh_component_instance_id := 8\<rparr>)
   \<and> m_id (example_old []) = 3
   \<and> handle_event example_host
       (Component_instance 1 [] 0 (VSimple 0) (Some (VSimple 0)) [] (VClosure 12)
          [Vdom_component 0]
          [Component_instance 7 [1] 0 (VSimple 1) (Some (VSimple 1)) [] (VClosure 10)
             [Vdom_string ''x''] [] (\<lambda>k. None) True 0]
          (\<lambda>k. None) True 0)
       [3] 20 (VSimple 0) =
     Some (Inl Invalid_handler,
       Component_instance 1 [] 0 (VSimple 0) (Some (VSimple 0)) [] (VClosure 12)
          [Vdom_component 0]
          [Component_instance 7 [1] 0 (VSimple 1) (Some (VSimple 1)) [] (VClosure 10)
             [Vdom_string ''x''] [] (\<lambda>k. None) True 0]
          (\<lambda>k. None) True 0)"
proof -
  let ?w8 = "example_world\<lparr>g_fresh_component_instance_id := 8\<rparr>"
  let ?c' = "Component_instance 7 [1] 0 (VSimple 1) (Some (VSimple 1)) [] (VClosure 10)
         [Vdom_string ''x''] [] (\<lambda>k. None) True 0"
  let ?parent = "Component_instance 1 [] 0 (VSimple 0) (Some (VSimple 0)) [] (VClosure 12)
          [Vdom_component 0] [?c'] (\<lambda>k. None) True 0"
  have prior: "new_component_instance example_host (Pure (VClosure 10)) (VSimple 0) [1]
      example_world =
     (Component_instance 3 [1] 0 (VSimple 0) None [] (VClosure 10) [] [] (\<lambda>k. None) False 0,
      example_world\<lparr>g_fresh_component_instance_id := 4\<rparr>)"
    by (simp add: new_component_instance_def example_host_def example_world_def)
  have new: "new_component_instance example_host (Pure (VClosure 10)) (VSimple 1) [1]
       (example_world\<lparr>g_fresh_component_instance_id := 7\<rparr>) = (example_new [], ?w8)"
    by (simp add: new_component_instance_def example_host_def example_world_def
        example_new_def)
  have run: "component_reconcile 1 example_host (example_new []) (Some (example_old [])) ?w8 =
     Some (Inr (), ?c', ?w8)"
    by (simp add: example_host_def example_new_def example_old_def example_world_def
        example_html_def set_inner_props_def set_hooks_def)
  have id: "m_id (example_old [])
      = m_id (Component_instance 3 [1] 0 (VSimple 0) None [] (VClosure 10) [] []
          (\<lambda>k. None) False 0)"
    and later: "g_fresh_component_instance_id
        (example_world\<lparr>g_fresh_component_instance_id := 7\<rparr>)
      = g_fresh_component_instance_id (example_world\<lparr>g_fresh_component_instance_id := 4\<rparr>)
        + of_nat 3"
    and n: "(3::nat) < 2 ^ 32 - 1"
    and props: "m_props (example_old []) \<noteq> VSimple 1"
    and children: "m_children ?parent = [?c']"
    by (simp_all add: example_old_def)
  from reconcile_rerender_keeps_fresh_id
    [where h = example_host and ?cmp0.0 = "Pure (VClosure 10)" and ?p0.0 = "VSimple 0"
      and ?r0.0 = "[1]" and ?w0.0 = example_world
      and ?old0.0 = "Component_instance 3 [1] 0 (VSimple 0) None [] (VClosure 10) [] []
          (\<lambda>k. None) False 0"
      and ?w0'.0 = "example_world\<lparr>g_fresh_component_instance_id := 4\<rparr>"
      and old = "example_old []"
      and ?w1.0 = "example_world\<lparr>g_fresh_component_instance_id := 7\<rparr>" and n = 3
      and cmp = "Pure (VClosure 10)" and p = "VSimple 1" and r = "[1]"
      and c = "example_new []" and w = ?w8 and fuel = 1 and res = "Inr ()" and c' = ?c'
      and w' = ?w8 and parent = ?parent and route = "[]" and handler_id = 20
      and event_args = "VSimple 0"]
    prior new run id later n props children
  have "handle_event example_host ?parent (m_id (example_old []) # []) 20 (VSimple 0)
      = Some (Inl Invalid_handler, ?parent)"
    by (simp del: component_reconcile.simps handle_event.simps)
  with prior new run show ?thesis by (simp add: example_old_def del: handle_event.simps)
qed

section \<open>Sibling reconciliation\<close>

lemma find_old_Some:
  "find_old k olds = Inr (Some j) \<Longrightarrow>
     j < length olds \<and> key (olds ! j) = Inr k
     \<and> (\<forall>i<j. \<exists>ki. key (olds ! i) = Inr ki \<and> ki \<noteq> k)"
proof (induction olds arbitrary: j)
  case Nil
  then show ?case by simp
next
  case (Cons ov olds)
  show ?case
  proof (cases "key ov = Inr k")
    case True
    with Cons.prems show ?thesis by simp
  next
    case False
    with Cons.prems obtain ko j' where ko: "key ov = Inr ko" "ko \<noteq> k"
      and j': "find_old k olds = Inr (Some j')" "j = Suc j'"
      by (auto split: sum.splits option.splits if_splits)
    from Cons.IH [OF j'(1)] ko j'(2) show ?thesis
      by (auto simp: less_Suc_eq_0_disj)
  qed
qed

lemma find_old_first:
  "j < length olds \<Longrightarrow> key (olds ! j) = Inr k
     \<Longrightarrow> (\<forall>i<j. \<exists>ki. key (olds ! i) = Inr ki \<and> ki \<noteq> k)
     \<Longrightarrow> find_old k olds = Inr (Some j)"
proof (induction olds arbitrary: j)
  case Nil
  then show ?case by simp
next
  case (Cons ov olds)
  show ?case
  proof (cases j)
    case 0
    with Cons.prems show ?thesis by simp
  next
    case (Suc j')
    with Cons.prems have "\<exists>ki. key ov = Inr ki \<and> ki \<noteq> k" by auto
    moreover from Suc Cons.prems have "find_old k olds = Inr (Some j')"
      by (intro Cons.IH) auto
    ultimately show ?thesis using Suc by auto
  qed
qed

lemma find_old_None:
  "(\<forall>ov\<in>set olds. \<exists>ki. key ov = Inr ki \<and> ki \<noteq> k) \<Longrightarrow> find_old k olds = Inr None"
  by (induction olds) auto

lemma mset_erase:
  "j < length xs \<Longrightarrow> add_mset (xs ! j) (mset (erase xs j)) = mset xs"
proof -
  assume "j < length xs"
  then have "xs = take j xs @ xs ! j # drop (Suc j) xs" by (rule id_take_nth_drop)
  then have "mset xs = mset (take j xs @ xs ! j # drop (Suc j) xs)" by simp
  then show ?thesis by (simp add: erase_def)
qed

lemma reconcile_children_traced:
  assumes "reconcile_children_with rc news olds s = Some (r, s')"
  shows "\<exists>pairs. reconcile_children_with (traced rc) news olds (s, lg) = Some (r, s', lg @ pairs)
           \<and> subseq (map fst pairs) news \<and> mset (map snd pairs) \<subseteq># mset olds"
  using assms
proof (induction news arbitrary: olds s lg)
  case Nil
  then show ?case by simp
next
  case (Cons n ns)
  show ?case
  proof (cases "key n")
    case (Inl e)
    with Cons.prems show ?thesis by simp
  next
    case (Inr ko)
    show ?thesis
    proof (cases ko)
      case None
      show ?thesis
      proof (cases olds)
        case Nil
        with Cons.prems Inr None have "reconcile_children_with rc ns [] s = Some (r, s')"
          by simp
        from Cons.IH [OF this, of lg] obtain pairs where
          "reconcile_children_with (traced rc) ns [] (s, lg) = Some (r, s', lg @ pairs)"
          "subseq (map fst pairs) ns" "mset (map snd pairs) \<subseteq># mset []"
          by blast
        with Inr None Nil show ?thesis by auto
      next
        case (Cons ov rest)
        show ?thesis
        proof (cases "rc n ov s")
          case None
          with Cons.prems Inr \<open>ko = None\<close> Cons show ?thesis by simp
        next
          case (Some res)
          obtain r1 s1 where res: "res = (r1, s1)" by (cases res)
          show ?thesis
          proof (cases r1)
            case (Inl e)
            with Cons.prems Inr \<open>ko = None\<close> Cons Some res
            have "r = Inl e" "s' = s1" by simp_all
            with Inr \<open>ko = None\<close> Cons Some res Inl
            have "reconcile_children_with (traced rc) (n # ns) olds (s, lg)
                    = Some (r, s', lg @ [(n, ov)])"
              by (simp add: traced_def)
            with Cons show ?thesis by (intro exI [of _ "[(n, ov)]"]) simp
          next
            case (Inr u)
            with Cons.prems \<open>key n = Inr ko\<close> \<open>ko = None\<close> Cons Some res
            have "reconcile_children_with rc ns rest s1 = Some (r, s')" by simp
            from Cons.IH [OF this, of "lg @ [(n, ov)]"] obtain pairs where
              p: "reconcile_children_with (traced rc) ns rest (s1, lg @ [(n, ov)])
                    = Some (r, s', (lg @ [(n, ov)]) @ pairs)"
              "subseq (map fst pairs) ns" "mset (map snd pairs) \<subseteq># mset rest"
              by blast
            from p(1) \<open>key n = Inr ko\<close> \<open>ko = None\<close> Cons Some res Inr
            have "reconcile_children_with (traced rc) (n # ns) olds (s, lg)
                    = Some (r, s', lg @ ((n, ov) # pairs))"
              by (simp add: traced_def)
            moreover from p(2) have "subseq (map fst ((n, ov) # pairs)) (n # ns)" by simp
            moreover from p(3) Cons have "mset (map snd ((n, ov) # pairs)) \<subseteq># mset olds"
              by simp
            ultimately show ?thesis by blast
          qed
        qed
      qed
    next
      case (Some k)
      show ?thesis
      proof (cases "find_old (Some k) olds")
        case (Inl e)
        with Cons.prems Inr Some show ?thesis by simp
      next
        case fo: (Inr jo)
        show ?thesis
        proof (cases jo)
          case None
          with Cons.prems Inr Some fo have "reconcile_children_with rc ns olds s = Some (r, s')"
            by simp
          from Cons.IH [OF this, of lg] obtain pairs where
            "reconcile_children_with (traced rc) ns olds (s, lg) = Some (r, s', lg @ pairs)"
            "subseq (map fst pairs) ns" "mset (map snd pairs) \<subseteq># mset olds"
            by blast
          with Inr Some fo None show ?thesis by auto
        next
          case j: (Some j)
          from find_old_Some fo j have jlt: "j < length olds" by blast
          show ?thesis
          proof (cases "rc n (olds ! j) s")
            case None
            with Cons.prems Inr Some fo j show ?thesis by simp
          next
            case res: (Some res)
            obtain r1 s1 where rs: "res = (r1, s1)" by (cases res)
            show ?thesis
            proof (cases r1)
              case (Inl e)
              with Cons.prems Inr Some fo j res rs
              have "r = Inl e" "s' = s1" by simp_all
              with Inr Some fo j res rs Inl
              have "reconcile_children_with (traced rc) (n # ns) olds (s, lg)
                      = Some (r, s', lg @ [(n, olds ! j)])"
                by (simp add: traced_def)
              moreover from jlt have "mset (map snd [(n, olds ! j)]) \<subseteq># mset olds"
                by simp
              ultimately show ?thesis by (intro exI [of _ "[(n, olds ! j)]"]) simp
            next
              case u: (Inr u)
              with Cons.prems Inr Some fo j res rs
              have "reconcile_children_with rc ns (erase olds j) s1 = Some (r, s')" by simp
              from Cons.IH [OF this, of "lg @ [(n, olds ! j)]"] obtain pairs where
                p: "reconcile_children_with (traced rc) ns (erase olds j) (s1, lg @ [(n, olds ! j)])
                      = Some (r, s', (lg @ [(n, olds ! j)]) @ pairs)"
                "subseq (map fst pairs) ns" "mset (map snd pairs) \<subseteq># mset (erase olds j)"
                by blast
              from p(1) Inr Some fo j res rs u
              have "reconcile_children_with (traced rc) (n # ns) olds (s, lg)
                      = Some (r, s', lg @ ((n, olds ! j) # pairs))"
                by (simp add: traced_def)
              moreover from p(2) have "subseq (map fst ((n, olds ! j) # pairs)) (n # ns)"
                by simp
              moreover from p(3) mset_erase [OF jlt]
              have "mset (map snd ((n, olds ! j) # pairs)) \<subseteq># mset olds"
                by (metis list.simps(9) mset.simps(2) mset_subset_eq_add_mset_cancel snd_conv)
              ultimately show ?thesis by blast
            qed
          qed
        qed
      qed
    qed
  qed
qed

text \<open>
  Claim C6. \<^verbatim>\<open>reconcile_children\<close> takes the new nodes from left to right. A new node
  with a key is reconciled against the first remaining old node with that key, which is
  then removed, and is left as it is when no remaining old node has the key; a new node
  without a key is reconciled against the first remaining old node, which is then
  removed, and is left as it is when none remains. So the new nodes of the pairs that
  were reconciled are a subsequence of the new nodes, and their old nodes are, counted
  with multiplicity, among the old nodes: no old node is used twice.
\<close>

theorem sibling_reconciliation:
  "(key n = Inr (Some k) \<and> j < length olds \<and> key (olds ! j) = Inr (Some k)
      \<and> (\<forall>i<j. \<exists>ki. key (olds ! i) = Inr ki \<and> ki \<noteq> Some k) \<longrightarrow>
      reconcile_children_with rc (n # ns) olds s =
        (case rc n (olds ! j) s of
           None \<Rightarrow> None
         | Some (Inl e, s1) \<Rightarrow> Some (Inl e, s1)
         | Some (Inr u, s1) \<Rightarrow> reconcile_children_with rc ns (erase olds j) s1))
   \<and> (key n' = Inr (Some k') \<and> (\<forall>ov\<in>set olds'. \<exists>ki. key ov = Inr ki \<and> ki \<noteq> Some k') \<longrightarrow>
      reconcile_children_with rc (n' # ns) olds' s = reconcile_children_with rc ns olds' s)
   \<and> (key m = Inr None \<longrightarrow>
      reconcile_children_with rc (m # ns) (ov # rest) s =
        (case rc m ov s of
           None \<Rightarrow> None
         | Some (Inl e, s1) \<Rightarrow> Some (Inl e, s1)
         | Some (Inr u, s1) \<Rightarrow> reconcile_children_with rc ns rest s1)
      \<and> reconcile_children_with rc (m # ns) [] s = reconcile_children_with rc ns [] s)
   \<and> (reconcile_children_with rc news olds0 s = Some (r, s') \<longrightarrow>
      (\<exists>pairs. reconcile_children_with (traced rc) news olds0 (s, []) = Some (r, s', pairs)
         \<and> subseq (map fst pairs) news \<and> mset (map snd pairs) \<subseteq># mset olds0))"
proof (intro conjI impI)
  assume "key n = Inr (Some k) \<and> j < length olds \<and> key (olds ! j) = Inr (Some k)
      \<and> (\<forall>i<j. \<exists>ki. key (olds ! i) = Inr ki \<and> ki \<noteq> Some k)"
  then have "key n = Inr (Some k)" and "find_old (Some k) olds = Inr (Some j)"
    by (simp_all add: find_old_first)
  then show "reconcile_children_with rc (n # ns) olds s =
        (case rc n (olds ! j) s of
           None \<Rightarrow> None
         | Some (Inl e, s1) \<Rightarrow> Some (Inl e, s1)
         | Some (Inr u, s1) \<Rightarrow> reconcile_children_with rc ns (erase olds j) s1)"
    by simp
next
  assume "key n' = Inr (Some k') \<and> (\<forall>ov\<in>set olds'. \<exists>ki. key ov = Inr ki \<and> ki \<noteq> Some k')"
  then have "key n' = Inr (Some k')" and "find_old (Some k') olds' = Inr None"
    by (simp_all add: find_old_None)
  then show "reconcile_children_with rc (n' # ns) olds' s = reconcile_children_with rc ns olds' s"
    by simp
next
  assume "key m = Inr None"
  then show "reconcile_children_with rc (m # ns) (ov # rest) s =
        (case rc m ov s of
           None \<Rightarrow> None
         | Some (Inl e, s1) \<Rightarrow> Some (Inl e, s1)
         | Some (Inr u, s1) \<Rightarrow> reconcile_children_with rc ns rest s1)"
    by simp
next
  assume "key m = Inr None"
  then show "reconcile_children_with rc (m # ns) [] s = reconcile_children_with rc ns [] s"
    by simp
next
  assume "reconcile_children_with rc news olds0 s = Some (r, s')"
  from reconcile_children_traced [OF this, of "[]"]
  show "\<exists>pairs. reconcile_children_with (traced rc) news olds0 (s, []) = Some (r, s', pairs)
         \<and> subseq (map fst pairs) news \<and> mset (map snd pairs) \<subseteq># mset olds0"
    by simp
qed

text \<open>
  On the example: the new nodes A, B against the old nodes B, A are matched by their keys;
  a new node A finds no partner in the old node B; a text takes the first old node.
\<close>

theorem sibling_reconciliation_witness:
  "reconcile_children_with (traced (vdom_reconcile 0 example_host []))
       [example_li ''A'' ''new'', example_li ''B'' ''new'']
       [example_li ''B'' ''old'', example_li ''A'' ''old''] (([], example_world), []) =
     Some (Inr (), ([], example_world),
       [(example_li ''A'' ''new'', example_li ''A'' ''old''),
        (example_li ''B'' ''new'', example_li ''B'' ''old'')])
   \<and> reconcile_children_with (vdom_reconcile 0 example_host [])
       [example_li ''A'' ''new''] [example_li ''B'' ''old''] ([], example_world) =
     Some (Inr (), ([], example_world))
   \<and> reconcile_children_with (vdom_reconcile 0 example_host [])
       [Vdom_string ''t''] [example_li ''B'' ''old''] ([], example_world) =
     Some (Inr (), ([], example_world))"
proof -
  let ?rc = "vdom_reconcile 0 example_host []"
  let ?s = "([] :: component_instance list, example_world)"
  have k: "key (example_li ''A'' ''new'') = Inr (Some ''A'')"
    "key (example_li ''B'' ''old'') = Inr (Some ''B'')"
    "key (example_li ''A'' ''old'') = Inr (Some ''A'')"
    "key (Vdom_string ''t'') = Inr None"
    by (simp_all add: example_li_def)
  have h1: "key (example_li ''A'' ''new'') = Inr (Some ''A'')
      \<and> 1 < length [example_li ''B'' ''old'', example_li ''A'' ''old'']
      \<and> key ([example_li ''B'' ''old'', example_li ''A'' ''old''] ! 1) = Inr (Some ''A'')
      \<and> (\<forall>i<1. \<exists>ki. key ([example_li ''B'' ''old'', example_li ''A'' ''old''] ! i) = Inr ki
            \<and> ki \<noteq> Some ''A'')"
    by (simp add: k)
  have h2: "key (example_li ''A'' ''new'') = Inr (Some ''A'')
      \<and> (\<forall>ov\<in>set [example_li ''B'' ''old'']. \<exists>ki. key ov = Inr ki \<and> ki \<noteq> Some ''A'')"
    by (simp add: k)
  have h3: "key (Vdom_string ''t'') = Inr None" by simp
  have h4: "reconcile_children_with ?rc [example_li ''A'' ''new'', example_li ''B'' ''new'']
       [example_li ''B'' ''old'', example_li ''A'' ''old''] ?s = Some (Inr (), ?s)"
    by (simp add: example_li_def erase_def)
  have run: "reconcile_children_with (traced ?rc)
       [example_li ''A'' ''new'', example_li ''B'' ''new'']
       [example_li ''B'' ''old'', example_li ''A'' ''old''] (?s, []) =
     Some (Inr (), ?s,
       [(example_li ''A'' ''new'', example_li ''A'' ''old''),
        (example_li ''B'' ''new'', example_li ''B'' ''old'')])"
    by (simp add: example_li_def erase_def traced_def)
  from sibling_reconciliation
    [of "example_li ''A'' ''new''" "''A''" 1 "[example_li ''B'' ''old'', example_li ''A'' ''old'']"
      ?rc "[]" ?s "example_li ''A'' ''new''" "''A''" "[example_li ''B'' ''old'']"
      "Vdom_string ''t''" "example_li ''B'' ''old''" "[]"
      "[example_li ''A'' ''new'', example_li ''B'' ''new'']"
      "[example_li ''B'' ''old'', example_li ''A'' ''old'']" "Inr ()" ?s]
    h1 h2 h3 h4 run
  show ?thesis by (simp add: example_li_def erase_def)
qed

section \<open>The attributes of an element\<close>

lemma render_val_class:
  assumes "render_val k v A = Inr A'" and "class_ok A"
  shows "class_ok A' \<and> class_of A' = (if k = ''className'' then class_acc (class_of A) v else class_of A)"
  using assms
  by (auto simp: render_val_def class_ok_def class_of_def update_conv' distinct_update
      split: if_splits option.splits json.splits)

lemma render_style_class:
  assumes "render_style l A = Inr A'" and "class_ok A"
  shows "class_ok A' \<and> class_of A' = class_of A"
  using assms
proof (induction l arbitrary: A)
  case Nil
  then show ?case by simp
next
  case (Cons kv l)
  obtain k v where kv: "kv = (k, v)" by (cases kv)
  show ?case
  proof (cases "map_of A ''style''")
    case None
    let ?B = "AList.update ''style'' (JObject [(k, JString v)]) A"
    from Cons.prems None kv have "render_style l ?B = Inr A'" by simp
    moreover from Cons.prems(2) have "class_ok ?B"
      by (simp add: class_ok_def update_conv' distinct_update)
    ultimately have "class_ok A' \<and> class_of A' = class_of ?B" by (rule Cons.IH)
    then show ?thesis by (simp add: class_of_def update_conv')
  next
    case (Some j)
    show ?thesis
    proof (cases j)
      case (JString s)
      with Cons.prems Some kv show ?thesis by simp
    next
      case (JObject kvs)
      let ?B = "AList.update ''style'' (JObject (AList.update k (JString v) kvs)) A"
      from Cons.prems Some JObject kv have "render_style l ?B = Inr A'" by simp
      moreover from Cons.prems(2) have "class_ok ?B"
        by (simp add: class_ok_def update_conv' distinct_update)
      ultimately have "class_ok A' \<and> class_of A' = class_of ?B" by (rule Cons.IH)
      then show ?thesis by (simp add: class_of_def update_conv')
    qed
  qed
qed

lemma render_attrs_class:
  assumes "render_attrs h route as (A, E, T) st = (Inr (A', E', T'), st')" and "class_ok A"
  shows "class_ok A' \<and> class_of A' = foldl class_acc (class_of A) (class_names as)"
  using assms
proof (induction as arbitrary: A E T st)
  case Nil
  then show ?case by simp
next
  case (Cons a as)
  show ?case
  proof (cases a)
    case (Val k v)
    with Cons.prems obtain B where B: "render_val k v A = Inr B"
      and rest: "render_attrs h route as (B, E, T) st = (Inr (A', E', T'), st')"
      by (auto split: sum.splits)
    from render_val_class [OF B Cons.prems(2)] Cons.IH [OF rest] Val
    show ?thesis by auto
  next
    case (Mouse_event kind handler)
    with Cons.prems obtain E1 st1 where
      "render_attrs h route as (A, E1, T) st1 = (Inr (A', E', T'), st')"
      by (auto split: prod.splits)
    from Cons.IH [OF this Cons.prems(2)] Mouse_event show ?thesis by simp
  next
    case (Style l)
    with Cons.prems obtain B where B: "render_style l A = Inr B"
      and rest: "render_attrs h route as (B, E, T) st = (Inr (A', E', T'), st')"
      by (auto split: sum.splits)
    from render_style_class [OF B Cons.prems(2)] Cons.IH [OF rest] Style
    show ?thesis by auto
  next
    case (Tooltip content)
    with Cons.prems obtain T1 st1 where
      "render_attrs h route as (A, E, Some T1) st1 = (Inr (A', E', T'), st')"
      by (auto split: prod.splits sum.splits)
    from Cons.IH [OF this Cons.prems(2)] Tooltip show ?thesis by simp
  next
    case (Text_change_event handler)
    with Cons.prems obtain E1 st1 where
      "render_attrs h route as (A, E1, T) st1 = (Inr (A', E', T'), st')"
      by (auto split: prod.splits)
    from Cons.IH [OF this Cons.prems(2)] Text_change_event show ?thesis by simp
  qed
qed

lemma join_spaces_Cons:
  "join_spaces (v # vs) = (if vs = [] then v else v @ '' '' @ join_spaces vs)"
  by (cases vs) simp_all

lemma foldl_class_acc_Some:
  "foldl class_acc (Some cn) vs = Some (join_spaces (cn # vs))"
  by (induction vs arbitrary: cn) (simp_all add: join_spaces_Cons)

lemma foldl_class_acc_None:
  "foldl class_acc None vs = (if vs = [] then None else Some (join_spaces vs))"
  by (cases vs) (simp_all add: foldl_class_acc_Some)

text \<open>
  Claim C8. In the attribute object of a rendered element every key stands once, and the
  entry under \<^verbatim>\<open>className\<close> is the values of all \<^verbatim>\<open>val\<close> attributes with that key,
  in the order of their declaration, joined by single spaces (\<^verbatim>\<open>to_json\<close> writes the
  object as it is under \<^verbatim>\<open>a\<close>).
\<close>

theorem class_names_merged:
  assumes "render_html h route (Element tag v_attrs v_children) st =
             (Inr (Vdom_element tag' attributes events children tooltip), st')"
  shows "distinct (map fst attributes)
       \<and> map_of attributes ''className'' =
           (if class_names v_attrs = [] then None
            else Some (JString (join_spaces (class_names v_attrs))))"
proof -
  from assms obtain st1 where
    ra: "render_attrs h route v_attrs ([], [], None) st = (Inr (attributes, events, tooltip), st1)"
    by (auto split: prod.splits sum.splits)
  have ok: "class_ok []" by (simp add: class_ok_def)
  from render_attrs_class [OF ra ok]
  have 1: "class_ok attributes"
    and 2: "class_of attributes = foldl class_acc (class_of []) (class_names v_attrs)"
    by simp_all
  from 2 have "class_of attributes =
      (if class_names v_attrs = [] then None else Some (join_spaces (class_names v_attrs)))"
    by (simp add: class_of_def foldl_class_acc_None)
  with 1 show ?thesis
    by (auto simp: class_ok_def class_of_def split: option.splits json.splits if_splits)
qed

text \<open>On the example: two class names around another attribute.\<close>

theorem class_names_merged_witness:
  "render_html example_host [] (Element ''div''
       [Val ''className'' ''a'', Val ''id'' ''x'', Val ''className'' ''b''] [])
       \<lparr>components = [], handlers = (\<lambda>k. None), rworld = example_world\<rparr> =
     (Inr (Vdom_element ''div'' [(''className'', JString ''a b''), (''id'', JString ''x'')] [] [] None),
      \<lparr>components = [], handlers = (\<lambda>k. None), rworld = example_world\<rparr>)
   \<and> distinct (map fst [(''className'', JString ''a b''), (''id'', JString ''x'')])
   \<and> map_of [(''className'', JString ''a b''), (''id'', JString ''x'')] ''className''
       = Some (JString ''a b'')"
proof -
  have run: "render_html example_host [] (Element ''div''
       [Val ''className'' ''a'', Val ''id'' ''x'', Val ''className'' ''b''] [])
       \<lparr>components = [], handlers = (\<lambda>k. None), rworld = example_world\<rparr> =
     (Inr (Vdom_element ''div'' [(''className'', JString ''a b''), (''id'', JString ''x'')] [] [] None),
      \<lparr>components = [], handlers = (\<lambda>k. None), rworld = example_world\<rparr>)"
    by (simp add: render_val_def)
  from class_names_merged [OF run] run show ?thesis by simp
qed

section \<open>Where the code departs from its documentation\<close>

text \<open>
  Claim C2 (the code does otherwise). \<^verbatim>\<open>stateful_hook::initialize\<close> tests \<^verbatim>\<open>m_state\<close>
  the wrong way round: with a state carried over it passes \<^verbatim>\<open>none\<close> to \<^verbatim>\<open>init\<close>, not
  the prior state, and without one it reads the empty optional. \<^verbatim>\<open>reconcile\<close> against a
  prior \<^verbatim>\<open>stateful_hook\<close> takes over the prior state and then initializes twice.
\<close>

theorem stateful_initialize_drops_prior_state:
  "hook_initialize h (Stateful_hook i u p (Some st)) props w =
     (case invoke h i [props, mk_vm_none] of
        Inl t \<Rightarrow> (Inl (Host_failure t), Stateful_hook i u p (Some st), w)
      | Inr r \<Rightarrow> (Inr (), Stateful_hook i u (Some props) (Some r), w))
   \<and> hook_initialize h (Stateful_hook i u p None) props w =
       (Inl Undefined, Stateful_hook i u p None, w)
   \<and> hook_reconcile h (Stateful_hook i u p s) props (Stateful_hook pi pu pp (Some st)) w =
       (case hook_initialize h (Stateful_hook i u p (Some st)) props w of
          (Inl e, hk, w1) \<Rightarrow> (Inl e, hk, w1)
        | (Inr x, hk, w1) \<Rightarrow>
            (case hook_initialize h hk props w1 of
               (Inl e, hk2, w2) \<Rightarrow> (Inl e, hk2, w2)
             | (Inr x2, hk2, w2) \<Rightarrow> (Inr True, hk2, w2)))"
  by simp

lemma handle_action_loop_never_some:
  assumes "handle_action_loop h i result hooks = Some y"
  shows "fst y \<noteq> Inr (Some a')"
proof -
  have "\<forall>a'. fst y \<noteq> Inr (Some a')"
  proof (rule handle_action_loop.raw_induct
      [where P = "\<lambda>h i result hooks y. \<forall>a'. fst y \<noteq> Inr (Some a')", OF _ assms])
    fix loop :: "host \<Rightarrow> 32 word \<Rightarrow> vm_obj option \<Rightarrow> component_hook list
      \<Rightarrow> ((exn + vm_obj option) \<times> component_hook list) option"
    fix h i result hooks y
    assume IH: "\<And>h i result hooks y. loop h i result hooks = Some y
      \<Longrightarrow> \<forall>a'. fst y \<noteq> Inr (Some a')"
    assume eq: "(case result of
        None \<Rightarrow> Some (Inr None, hooks)
      | Some a \<Rightarrow>
          (if unat i < length hooks then
             loop h (i - 1) (component_hook_action (hooks ! unat i) a) hooks
           else Some (Inl Undefined, hooks))) = Some y"
    show "\<forall>a'. fst y \<noteq> Inr (Some a')"
      using eq IH by (auto split: option.splits if_splits prod.splits sum.splits)
  qed
  then show ?thesis by simp
qed

text \<open>
  The \<^verbatim>\<open>action\<close> of an element of \<^verbatim>\<open>m_hooks\<close> passes the action on, so the loop of
  \<^verbatim>\<open>handle_action\<close> never takes its \<^verbatim>\<open>break\<close>: it counts down to the outermost
  hook, wraps around and reads outside the vector.
\<close>

lemma handle_action_loop_down:
  assumes "k < length hooks" and "length hooks < 2 ^ 32"
  shows "handle_action_loop h (of_nat k) (Some a) hooks = Some (Inl Undefined, hooks)"
  using assms
proof (induction k arbitrary: a)
  case 0
  have "unat (- 1 :: 32 word) = 4294967295"
    by (simp add: unsigned_minus_1_eq_mask mask_eq_exp_minus_1)
  with 0 have "\<not> unat (0 - 1 :: 32 word) < length hooks" by simp
  then have "handle_action_loop h (0 - 1) (Some a) hooks = Some (Inl Undefined, hooks)"
    by (subst handle_action_loop.simps) simp
  with 0 show ?case
    by (subst handle_action_loop.simps) (simp add: component_hook_action_def)
next
  case (Suc k)
  from Suc.prems have small: "Suc k < 2 ^ 32" by simp
  then have u: "unat (of_nat (Suc k) :: 32 word) = Suc k"
    by (simp add: unat_of_nat del: of_nat_Suc)
  have step: "(of_nat (Suc k) :: 32 word) - 1 = of_nat k" by simp
  from Suc.prems have "k < length hooks" by simp
  from Suc.IH [OF this Suc.prems(2)]
  have "handle_action_loop h (of_nat k) (Some a) hooks = Some (Inl Undefined, hooks)" .
  with Suc.prems u step show ?case
    by (subst handle_action_loop.simps) (simp add: component_hook_action_def del: of_nat_Suc)
qed

lemma handle_action_undefined:
  assumes "length (m_hooks c) < 2 ^ 32"
  shows "handle_action h c a = Some (Inl Undefined, c)"
proof (cases "m_hooks c")
  case Nil
  have "handle_action_loop h (0 - 1) (Some a) [] = Some (Inl Undefined, [])"
    by (subst handle_action_loop.simps) simp
  with Nil show ?thesis
    using set_hooks_same [of c] by (simp add: handle_action_def)
next
  case (Cons hk hks)
  then have "length hks < length (m_hooks c)" by simp
  from handle_action_loop_down [OF this assms, of h a] Cons
  have "handle_action_loop h (of_nat (length (m_hooks c)) - 1) (Some a) (m_hooks c)
      = Some (Inl Undefined, m_hooks c)"
    by simp
  then show ?thesis by (simp add: handle_action_def set_hooks_same)
qed

text \<open>
  Claim C3 (the code does otherwise). The loop of \<^verbatim>\<open>handle_action\<close> counts an
  \<^verbatim>\<open>unsigned\<close> down with the test \<^verbatim>\<open>i >= 0\<close>, so it never ends after the outermost
  hook: whatever the hooks and the action, \<^verbatim>\<open>handle_action\<close> does not return an action,
  and with no hooks it reads \<^verbatim>\<open>m_hooks[4294967295]\<close>.
\<close>

theorem handle_action_never_returns_action:
  "handle_action h c a \<noteq> Some (Inr (Some a'), c')
   \<and> handle_action h (Component_instance i r ha p ip [] v rd ch hs b n) a =
       Some (Inl Undefined, Component_instance i r ha p ip [] v rd ch hs b n)"
proof
  show "handle_action h c a \<noteq> Some (Inr (Some a'), c')"
  proof
    assume "handle_action h c a = Some (Inr (Some a'), c')"
    then obtain hooks where
      "handle_action_loop h (of_nat (length (m_hooks c)) - 1) (Some a) (m_hooks c)
         = Some (Inr (Some a'), hooks)"
      by (auto simp: handle_action_def split: option.splits prod.splits)
    from handle_action_loop_never_some [OF this, of a'] show False by simp
  qed
next
  show "handle_action h (Component_instance i r ha p ip [] v rd ch hs b n) a =
       Some (Inl Undefined, Component_instance i r ha p ip [] v rd ch hs b n)"
    by (simp add: handle_action_def handle_action_loop.simps set_hooks_def)
qed

text \<open>
  Claim C4 (the code does otherwise). At the empty route \<^verbatim>\<open>handle_event\<close> indexes
  \<^verbatim>\<open>m_handlers\<close> without asking whether the id is a key; for an id that is not one it
  invokes an empty object and does not throw \<^verbatim>\<open>invalid_handler\<close>. A route that names
  no child does throw it.
\<close>

theorem handle_event_unknown_handler:
  "handle_event h (Component_instance i r ha p ip hks v rd ch (\<lambda>k. None) b n) [] hid args =
     Some (Inl Undefined, Component_instance i r ha p ip hks v rd ch (\<lambda>k. None) b n)
   \<and> handle_event h (Component_instance i r ha p ip hks v rd [] hs b n) (x # route) hid args =
     Some (Inl Invalid_handler, Component_instance i r ha p ip hks v rd [] hs b n)"
  by simp

text \<open>
  Claim C5 (the code does otherwise). \<^verbatim>\<open>with_mouse_capture_hook::get_props\<close> pairs
  the props with the constant 0, the number of \<^verbatim>\<open>outside\<close>, whatever \<^verbatim>\<open>m_s\<close> is. And
  an instance does not reach that method or \<^verbatim>\<open>set_state\<close>: the hook that the
  constructor keeps for a \<^verbatim>\<open>with_mouse_capture\<close> layer is the slice, the cast in
  \<^verbatim>\<open>update_capture_state\<close> fails on the copy of it, so the mouse entry points leave
  the instance and the world as they are and nothing renders again, and the inner props
  that \<^verbatim>\<open>initialize\<close> hands to the view are the props themselves, with no capture state.
\<close>

theorem mouse_capture_state_not_in_props:
  "hook_get_props h (With_mouse_capture_hook s) props w =
     (Inr (mk_vm_pair (VSimple 0) props), With_mouse_capture_hook s, w)
   \<and> new_component_instance h (With_mouse_capture (Pure v)) p r w =
     (Component_instance (g_fresh_component_instance_id w) r
        (hash h (With_mouse_capture (Pure v))) p None [Component_hook] v [] [] (\<lambda>k. None) False 0,
      w\<lparr>g_fresh_component_instance_id := g_fresh_component_instance_id w + 1\<rparr>)
   \<and> update_capture_state fuel h c ms w = Some (Inr (), c, w)
   \<and> handle_mouse_gain_capture fuel h c [] w = Some (Inr (), c, w)
   \<and> handle_mouse_lose_capture fuel h c [] w = Some (Inr (), c, w)
   \<and> m_inner_props (initialize c) = Some (m_props c)"
proof -
  have loop: "set_states hks ms = False" for hks ms
    by (induction hks) (simp_all add: dynamic_cast_with_mouse_capture_hook_def)
  have update: "update_capture_state fuel h c ms w = Some (Inr (), c, w)" for ms
    by (simp add: update_capture_state_def loop)
  have "hook_get_props h (With_mouse_capture_hook s) props w =
     (Inr (mk_vm_pair (VSimple 0) props), With_mouse_capture_hook s, w)"
    by (simp add: mk_vm_simple_def)
  moreover have "new_component_instance h (With_mouse_capture (Pure v)) p r w =
     (Component_instance (g_fresh_component_instance_id w) r
        (hash h (With_mouse_capture (Pure v))) p None [Component_hook] v [] [] (\<lambda>k. None) False 0,
      w\<lparr>g_fresh_component_instance_id := g_fresh_component_instance_id w + 1\<rparr>)"
    by (simp add: new_component_instance_def slice_def)
  moreover have "handle_mouse_gain_capture fuel h c [] w = Some (Inr (), c, w)"
    by (simp add: update)
  moreover have "handle_mouse_lose_capture fuel h c [] w = Some (Inr (), c, w)"
    by (simp add: update)
  moreover have "m_inner_props (initialize c) = Some (m_props c)"
    by (simp add: initialize_props set_inner_props_def)
  ultimately show ?thesis using update [of ms] by simp
qed

text \<open>
  Claim C7 (the code does otherwise). \<^verbatim>\<open>with_task_hook::initialize\<close> builds the task and
  submits it, and that is all it does to the world: the handler for the completion is a
  comment marked todo, so nothing calls \<^verbatim>\<open>handle_task_completed\<close> when the task
  completes. And an instance does not reach the methods of the struct: the hook that the
  constructor keeps for a \<^verbatim>\<open>with_task\<close> layer is the slice, so \<^verbatim>\<open>initialize\<close> of the
  instance builds and submits no task and hands the props themselves to the view, and so
  does \<^verbatim>\<open>handle_task_completed\<close> at the empty route before it renders: the view gets
  no result of the task.
\<close>

theorem with_task_initialize_only_submits:
  "hook_initialize h (With_task_hook tb None) props w =
     (case invoke h tb [props] of
        Inl t \<Rightarrow> (Inl (Host_failure t), With_task_hook tb None, w)
      | Inr vt \<Rightarrow>
          (Inr (), With_task_hook tb (Some vt), w\<lparr>taskq_submitted := taskq_submitted w @ [vt]\<rparr>))
   \<and> new_component_instance h (With_task tb (Pure v)) p r w =
     (Component_instance (g_fresh_component_instance_id w) r
        (hash h (With_task tb (Pure v))) p None [Component_hook] v [] [] (\<lambda>k. None) False 0,
      w\<lparr>g_fresh_component_instance_id := g_fresh_component_instance_id w + 1\<rparr>)
   \<and> initialize c = set_inner_props (Some (m_props c)) c
   \<and> handle_task_completed fuel h c [] w
       = render fuel h (set_inner_props (Some (m_props c)) c) w"
  by (simp add: initialize_render_def initialize_props new_component_instance_def slice_def
      del: render.simps)
end
